theory Spec2Isabelle
  imports Main
begin

section \<open>Python values, source locations and tokens\<close>

text \<open>
  The scanner of \<^verbatim>\<open>dsl/scanner.py\<close> is Python 2 code built on the \<^verbatim>\<open>plex\<close> library.
  Python integers are unbounded, so they are \<open>int\<close>; Python 2 byte strings are \<open>string\<close>.
  The characters the source writes with an escape are named here.
\<close>

abbreviation dquote :: char where "dquote \<equiv> CHR 0x22"
abbreviation backslash :: char where "backslash \<equiv> CHR 0x5C"
abbreviation newline :: char where "newline \<equiv> CHR 0x0A"

text \<open>\<^verbatim>\<open>class SourceLocation\<close>: \<^verbatim>\<open>filename\<close> may be \<^verbatim>\<open>None\<close>.\<close>

record source_location =
  filename :: "string option"
  line :: int
  column :: int

text \<open>\<^verbatim>\<open>class SourceRange\<close>, fields \<^verbatim>\<open>start\<close> and \<^verbatim>\<open>end\<close>.\<close>

record source_range =
  start :: source_location
  "end" :: source_location

text \<open>
  Modelled from the spec: the classes of the module \<^verbatim>\<open>dsl.diagnostics\<close>, which the
  scanner imports as \<^verbatim>\<open>diag\<close> and which is not among the sources. The two lexical
  diagnostics are values constructed from a location, \<^verbatim>\<open>InvalidCharacter(location)\<close>
  and \<^verbatim>\<open>InvalidIndentation(location)\<close>; \<^verbatim>\<open>UnexpectedToken(wanted_token, got_token)\<close>
  is constructed from two tokens and appears below as an exception.
\<close>

datatype diagnostic =
    InvalidCharacter source_location
  | InvalidIndentation source_location

text \<open>
  The Python values that occur as the type or value of a token: \<^verbatim>\<open>None\<close>, a string,
  an integer (the width carried by \<^verbatim>\<open>INDENT\<close>) or a diagnostic object.
\<close>

datatype pyval =
    PNone
  | PStr string
  | PInt int
  | PDiag diagnostic

text \<open>\<^verbatim>\<open>class Token\<close>: \<^verbatim>\<open>source_range\<close> defaults to \<^verbatim>\<open>None\<close>.\<close>

record token =
  type :: pyval
  "value" :: pyval
  source_range :: "source_range option"

definition Token :: "pyval \<Rightarrow> pyval \<Rightarrow> source_range option \<Rightarrow> token" where
  "Token ty v r = \<lparr>type = ty, value = v, source_range = r\<rparr>"

text \<open>
  The position triple of plex, \<^verbatim>\<open>(name, line, column)\<close>, and the exceptions that the
  modelled code can raise. \<^verbatim>\<open>UnrecognizedInput\<close> is raised by plex;
  \<^verbatim>\<open>IndentationError\<close> is the class at the end of \<^verbatim>\<open>scanner.py\<close>, carrying
  \<^verbatim>\<open>raw_position\<close>; \<^verbatim>\<open>IndexError\<close>, \<^verbatim>\<open>TypeError\<close> and \<^verbatim>\<open>NameError\<close> are Python's own;
  \<open>Raised d\<close> is \<^verbatim>\<open>raise self.peek().value\<close> for a diagnostic \<open>d\<close>.
\<close>

type_synonym position = "string option \<times> int \<times> int"

datatype py_exn =
    UnrecognizedInput
  | IndentationError position
  | IndexError
  | TypeError
  | NameError
  | Raised diagnostic
  | UnexpectedToken token token

subsection \<open>\<^verbatim>\<open>Token.display_name\<close>\<close>

text \<open>
  \<^verbatim>\<open>
    token_type = self.type
    if token_type == "NEWLINE": return "newline"
    elif token_type == "INDENT": return "indent"
    elif token_type == "OUTDENT": return "outdent"
    elif token_type == "EOF": return "end of file"
    else: return token.value
  \<close>
  No name \<^verbatim>\<open>token\<close> is bound in the property or in the module (the module binds
  \<^verbatim>\<open>plex\<close>, the plex names, \<^verbatim>\<open>diag\<close> and its classes), so the last branch raises
  \<^verbatim>\<open>NameError\<close>.
\<close>

definition display_name :: "token \<Rightarrow> py_exn + string" where
  "display_name self =
     (let token_type = type self in
      if token_type = PStr ''NEWLINE'' then Inr ''newline''
      else if token_type = PStr ''INDENT'' then Inr ''indent''
      else if token_type = PStr ''OUTDENT'' then Inr ''outdent''
      else if token_type = PStr ''EOF'' then Inr ''end of file''
      else Inl NameError)"

subsection \<open>\<^verbatim>\<open>Token.__eq__\<close>\<close>

text \<open>
  The right operand of \<^verbatim>\<open>==\<close> is any Python object: a tuple (of any length), a
  \<^verbatim>\<open>Token\<close>, or something else. Tuples compare by length and componentwise.
  \<^verbatim>\<open>
    if type(other) is tuple: return (self.type, self.value) == other
    elif type(other) is type(self):
        return (self.type, self.value) == (other.type, other.value)
    else: return False
  \<close>
\<close>

datatype pyobj =
    OTuple "pyval list"
  | OToken token
  | OOther

definition Token_eq :: "token \<Rightarrow> pyobj \<Rightarrow> bool" where
  "Token_eq self other =
     (case other of
        OTuple vs \<Rightarrow> [type self, value self] = vs
      | OToken t \<Rightarrow> [type self, value self] = [type t, value t]
      | OOther \<Rightarrow> False)"

text \<open>\<^verbatim>\<open>Token.__getitem__\<close>: the legacy tuple view, \<^verbatim>\<open>IndexError\<close> for any other key.\<close>

definition Token_getitem :: "token \<Rightarrow> int \<Rightarrow> py_exn + pyval" where
  "Token_getitem self key =
     (if key = 0 then Inr (type self)
      else if key = 1 then Inr (value self)
      else Inl IndexError)"

section \<open>The plex library: patterns and longest match\<close>

text \<open>
  \<^verbatim>\<open>RawScanner\<close> extends \<^verbatim>\<open>plex.Scanner\<close>; the patterns of its lexicon are built from
  the plex constructors \<^verbatim>\<open>Str\<close>, \<^verbatim>\<open>Any\<close>, \<^verbatim>\<open>AnyBut\<close>, \<^verbatim>\<open>Range\<close>, \<^verbatim>\<open>Rep\<close>, \<^verbatim>\<open>Rep1\<close>,
  \<^verbatim>\<open>Opt\<close>, \<^verbatim>\<open>Eof\<close>, sequence (\<^verbatim>\<open>+\<close>) and alternative (\<^verbatim>\<open>|\<close>). plex is an external
  library; what is modelled of it here is its documented behaviour: the scanner
  takes the longest prefix of the input that some pattern of the current state
  matches, the earliest pattern of the lexicon winning a tie, and performs that
  pattern's action.

  The machine of plex reads characters and the special symbol for the end of the
  file. (It also reads begin-of-line and end-of-line markers; every pattern skips
  them where a line starts or ends, so they are left out.) An end-of-line marker
  also precedes the end-of-file symbol, so the pattern \<^verbatim>\<open>Eof\<close> cannot match while
  text or that marker is still to be read: at the end of the input the first scan
  finds no match, which is how \<^verbatim>\<open>read\<close> comes to call \<^verbatim>\<open>eof()\<close>, and only a later
  scan starts on the end-of-file symbol itself.
\<close>

datatype sym = Ch char | EofSym

datatype re =
    Str string
  | Any string
  | AnyBut string
  | Range string
  | Seq re re
  | Alt re re
  | Rep re
  | Rep1 re
  | Opt re
  | Eof

text \<open>\<^verbatim>\<open>Range("azAZ")\<close> matches one character of \<^verbatim>\<open>a..z\<close> or \<^verbatim>\<open>A..Z\<close>, compared by code.\<close>

fun in_ranges :: "string \<Rightarrow> char \<Rightarrow> bool" where
  "in_ranges (lo # hi # ps) c =
     (((of_char lo :: nat) \<le> of_char c \<and> (of_char c :: nat) \<le> of_char hi) \<or> in_ranges ps c)"
| "in_ranges ps c = False"

text \<open>
  Longest match by derivatives: \<open>nullable r\<close> says that \<open>r\<close> matches the empty word,
  \<open>deriv a r\<close> matches what \<open>r\<close> matches after a leading \<open>a\<close>. \<open>Any []\<close> matches nothing
  and \<open>Str []\<close> matches the empty word only.
\<close>

fun nullable :: "re \<Rightarrow> bool" where
  "nullable (Str s) = (s = [])"
| "nullable (Any cs) = False"
| "nullable (AnyBut cs) = False"
| "nullable (Range ps) = False"
| "nullable (Seq r s) = (nullable r \<and> nullable s)"
| "nullable (Alt r s) = (nullable r \<or> nullable s)"
| "nullable (Rep r) = True"
| "nullable (Rep1 r) = nullable r"
| "nullable (Opt r) = True"
| "nullable Eof = False"

fun deriv :: "sym \<Rightarrow> re \<Rightarrow> re" where
  "deriv a (Str []) = Any []"
| "deriv a (Str (c # cs)) = (if a = Ch c then Str cs else Any [])"
| "deriv a (Any cs) = (case a of Ch c \<Rightarrow> if c \<in> set cs then Str [] else Any [] | EofSym \<Rightarrow> Any [])"
| "deriv a (AnyBut cs) = (case a of Ch c \<Rightarrow> if c \<notin> set cs then Str [] else Any [] | EofSym \<Rightarrow> Any [])"
| "deriv a (Range ps) = (case a of Ch c \<Rightarrow> if in_ranges ps c then Str [] else Any [] | EofSym \<Rightarrow> Any [])"
| "deriv a (Seq r s) =
     (if nullable r then Alt (Seq (deriv a r) s) (deriv a s) else Seq (deriv a r) s)"
| "deriv a (Alt r s) = Alt (deriv a r) (deriv a s)"
| "deriv a (Rep r) = Seq (deriv a r) (Rep r)"
| "deriv a (Rep1 r) = Seq (deriv a r) (Rep r)"
| "deriv a (Opt r) = deriv a r"
| "deriv a Eof = (if a = EofSym then Str [] else Any [])"

text \<open>
  \<open>longest r w k best\<close> walks along \<open>w\<close> and remembers in \<open>best\<close> the last position
  at which the pattern accepted, as the machine of plex records its backup state.
\<close>

fun longest :: "re \<Rightarrow> sym list \<Rightarrow> nat \<Rightarrow> nat option \<Rightarrow> nat option" where
  "longest r [] k best = (if nullable r then Some k else best)"
| "longest r (a # w) k best =
     longest (deriv a r) w (Suc k) (if nullable r then Some k else best)"

definition match_len :: "re \<Rightarrow> sym list \<Rightarrow> nat option" where
  "match_len r w = longest r w 0 None"

text \<open>The words a pattern matches, as a set: the reference for the matcher above.\<close>

definition conc :: "'a list set \<Rightarrow> 'a list set \<Rightarrow> 'a list set" where
  "conc A B = {u @ v | u v. u \<in> A \<and> v \<in> B}"

inductive_set star :: "'a list set \<Rightarrow> 'a list set" for A :: "'a list set" where
  star_Nil: "[] \<in> star A"
| star_app: "u \<in> A \<Longrightarrow> v \<in> star A \<Longrightarrow> u @ v \<in> star A"

fun lang :: "re \<Rightarrow> sym list set" where
  "lang (Str s) = {map Ch s}"
| "lang (Any cs) = {[Ch c] | c. c \<in> set cs}"
| "lang (AnyBut cs) = {[Ch c] | c. c \<notin> set cs}"
| "lang (Range ps) = {[Ch c] | c. in_ranges ps c}"
| "lang (Seq r s) = conc (lang r) (lang s)"
| "lang (Alt r s) = lang r \<union> lang s"
| "lang (Rep r) = star (lang r)"
| "lang (Rep1 r) = conc (lang r) (star (lang r))"
| "lang (Opt r) = insert [] (lang r)"
| "lang Eof = {[EofSym]}"

lemma Nil_in_conc: "[] \<in> conc A B \<longleftrightarrow> [] \<in> A \<and> [] \<in> B"
  by (auto simp: conc_def)

lemma Cons_in_conc:
  "a # w \<in> conc A B \<longleftrightarrow> w \<in> conc {u. a # u \<in> A} B \<or> ([] \<in> A \<and> a # w \<in> B)"
  by (auto simp: conc_def Cons_eq_append_conv)

lemma Cons_in_star: "a # w \<in> star A \<longleftrightarrow> w \<in> conc {u. a # u \<in> A} (star A)"
proof
  assume "a # w \<in> star A"
  then show "w \<in> conc {u. a # u \<in> A} (star A)"
  proof (induction "a # w" arbitrary: rule: star.induct)
    case (star_app u v)
    then show ?case by (cases u) (auto simp: conc_def)
  qed
next
  assume "w \<in> conc {u. a # u \<in> A} (star A)"
  then obtain u v where "w = u @ v" "a # u \<in> A" "v \<in> star A"
    by (auto simp: conc_def)
  then show "a # w \<in> star A" using star.star_app [of "a # u" A v] by simp
qed

lemma nullable_lang: "nullable r \<longleftrightarrow> [] \<in> lang r"
  by (induction r) (auto simp: Nil_in_conc star.star_Nil)

lemma lang_deriv: "lang (deriv a r) = {w. a # w \<in> lang r}"
proof (induction r)
  case (Str s)
  then show ?case by (cases s) auto
next
  case (Seq r1 r2)
  then show ?case by (auto simp add: Cons_in_conc nullable_lang)
next
  case (Rep r)
  then show ?case by (simp add: Cons_in_star)
next
  case (Rep1 r)
  then show ?case by (auto simp add: Cons_in_conc Cons_in_star nullable_lang)
qed (auto split: sym.splits)


text \<open>
  The rule that wins on input \<open>w\<close>: the longest match, and among equally long
  matches the first in the lexicon.
\<close>

fun best_rule :: "(re \<times> 'a) list \<Rightarrow> sym list \<Rightarrow> (nat \<times> 'a) option" where
  "best_rule [] w = None"
| "best_rule ((r, a) # rs) w =
     (case match_len r w of
        None \<Rightarrow> best_rule rs w
      | Some n \<Rightarrow>
          (case best_rule rs w of
             None \<Rightarrow> Some (n, a)
           | Some (m, b) \<Rightarrow> if n < m then Some (m, b) else Some (n, a)))"

section \<open>The raw lexer: \<^verbatim>\<open>class RawScanner(plex.Scanner)\<close>\<close>

text \<open>
  Where the plex machine stands with respect to the end of the input: still in the
  text (or at its very end, where an end-of-line marker precedes the end-of-file
  symbol), on the end-of-file symbol (after a scan found nothing more to read), or
  past it (after a pattern consumed that symbol).
\<close>

datatype cursor = InText | OnEof | AfterEof

text \<open>
  The state of a raw scanner. From plex: the unread rest of the stream, the cursor,
  the name, the current line and column, the line and column where the last scanned
  text started (\<^verbatim>\<open>position()\<close> returns them), the last scanned \<^verbatim>\<open>text\<close>, the lexicon
  state \<^verbatim>\<open>state_name\<close> and the \<^verbatim>\<open>queue\<close> of produced \<^verbatim>\<open>(value, text)\<close> pairs. From
  \<^verbatim>\<open>RawScanner.__init__\<close>: \<^verbatim>\<open>seen_one_indent\<close>, \<^verbatim>\<open>indents\<close> (a Python list, its top
  at the end), \<^verbatim>\<open>bracket_count\<close> and \<^verbatim>\<open>min_bracket_count\<close>.
\<close>

record RawScanner =
  stream :: string
  cursor :: cursor
  name :: "string option"
  cur_line :: int
  cur_col :: int
  start_line :: int
  start_col :: int
  "text" :: string
  state_name :: string
  queue :: "(pyval \<times> pyval) list"
  seen_one_indent :: bool
  indents :: "int list"
  bracket_count :: int
  min_bracket_count :: int

text \<open>
  A handler returns a value (\<^verbatim>\<open>None\<close> when it returns nothing) and leaves the scanner
  changed, or raises. An exception comes with the scanner as the raise left it.
\<close>

type_synonym raw_result = "(py_exn \<times> RawScanner) + (pyval \<times> RawScanner)"

text \<open>
  The actions of a plex lexicon: a constant value to return, a method to call,
  \<^verbatim>\<open>TEXT\<close> (return the matched text) and \<^verbatim>\<open>IGNORE\<close>.
\<close>

datatype action =
    Return string
  | Call "RawScanner \<Rightarrow> string \<Rightarrow> raw_result"
  | TEXT
  | IGNORE

text \<open>plex: \<^verbatim>\<open>position()\<close> is \<^verbatim>\<open>(self.name, self.start_line, self.start_col)\<close>.\<close>

definition position :: "RawScanner \<Rightarrow> position" where
  "position self = (name self, start_line self, start_col self)"

text \<open>
  plex: \<^verbatim>\<open>produce(value, text = None)\<close> appends \<^verbatim>\<open>(value, text)\<close> to the queue, with
  \<^verbatim>\<open>self.text\<close> for a missing \<^verbatim>\<open>text\<close>. \<^verbatim>\<open>begin(state_name)\<close> selects the lexicon state.
\<close>

definition produce :: "RawScanner \<Rightarrow> pyval \<Rightarrow> pyval option \<Rightarrow> RawScanner" where
  "produce self v txt =
     self\<lparr>queue := queue self @
        [(v, case txt of None \<Rightarrow> PStr (text self) | Some t \<Rightarrow> t)]\<rparr>"

definition begin_state :: "RawScanner \<Rightarrow> string \<Rightarrow> RawScanner" where
  "begin_state self nm = self\<lparr>state_name := nm\<rparr>"

text \<open>
  \<^verbatim>\<open>
    def outdent_to(self, new_level):
        while new_level < self.indents[-1]:
            self.indents.pop()
            self.produce('OUTDENT', '')
        if self.indents[-1] != new_level:
            raise IndentationError(self.position())
  \<close>
  \<^verbatim>\<open>self.indents[-1]\<close> raises \<^verbatim>\<open>IndexError\<close> on an empty list.
\<close>

function outdent_to :: "RawScanner \<Rightarrow> int \<Rightarrow> (py_exn \<times> RawScanner) + RawScanner" where
  "outdent_to self new_level =
     (if indents self = [] then Inl (IndexError, self)
      else if new_level < last (indents self) then
        outdent_to
          (produce (self\<lparr>indents := butlast (indents self)\<rparr>) (PStr ''OUTDENT'') (Some (PStr [])))
          new_level
      else if last (indents self) \<noteq> new_level then Inl (IndentationError (position self), self)
      else Inr self)"
  by pat_completeness auto
termination
  by (relation "measure (\<lambda>(self, new_level). length (indents self))") (auto simp: produce_def)

declare outdent_to.simps [simp del]

text \<open>
  \<^verbatim>\<open>
    def handle_newline(self, text):
        if self.bracket_count == 0:
            self.begin('indent')
            return 'NEWLINE'
  \<close>
\<close>

definition handle_newline :: "RawScanner \<Rightarrow> string \<Rightarrow> raw_result" where
  "handle_newline self txt =
     (if bracket_count self = 0 then Inr (PStr ''NEWLINE'', begin_state self ''indent'')
      else Inr (PNone, self))"

text \<open>
  \<^verbatim>\<open>
    def handle_indentation(self, text):
        current_level = self.indents[-1]
        new_level = len(text)
        if new_level > 0 and text[-1] == "\n":
            self.produce('NEWLINE', "\n")
            return
        if new_level > current_level:
            self.indents.append(new_level)
            indent_change = new_level - current_level
            self.produce('INDENT', indent_change)
        elif new_level < current_level:
            self.outdent_to(new_level)
        self.begin('')
  \<close>
\<close>

definition handle_indentation :: "RawScanner \<Rightarrow> string \<Rightarrow> raw_result" where
  "handle_indentation self txt =
     (if indents self = [] then Inl (IndexError, self)
      else
        let current_level = last (indents self);
            new_level = int (length txt)
        in if new_level > 0 \<and> last txt = newline then
             Inr (PNone, produce self (PStr ''NEWLINE'') (Some (PStr [newline])))
           else if new_level > current_level then
             Inr (PNone,
               begin_state
                 (produce (self\<lparr>indents := indents self @ [new_level]\<rparr>)
                    (PStr ''INDENT'') (Some (PInt (new_level - current_level))))
                 [])
           else if new_level < current_level then
             (case outdent_to self new_level of
                Inl e \<Rightarrow> Inl e
              | Inr self' \<Rightarrow> Inr (PNone, begin_state self' []))
           else Inr (PNone, begin_state self []))"

text \<open>
  \<^verbatim>\<open>handle_comment\<close> first reads \<^verbatim>\<open>text[-1]\<close> (an \<^verbatim>\<open>IndexError\<close> on an empty text; the
  assignment to \<^verbatim>\<open>test\<close> has no effect), then, outside brackets, begins the state
  \<^verbatim>\<open>indent\<close> and produces a \<^verbatim>\<open>NEWLINE\<close>.
\<close>

definition handle_comment :: "RawScanner \<Rightarrow> string \<Rightarrow> raw_result" where
  "handle_comment self txt =
     (if txt = [] then Inl (IndexError, self)
      else if bracket_count self = 0 then
        Inr (PNone, produce (begin_state self ''indent'') (PStr ''NEWLINE'') (Some (PStr [newline])))
      else Inr (PNone, self))"

text \<open>
  The bracket handlers return the text; the closing one decrements the counter only
  above \<^verbatim>\<open>min_bracket_count\<close>.
\<close>

definition handle_open_bracket :: "RawScanner \<Rightarrow> string \<Rightarrow> raw_result" where
  "handle_open_bracket self txt =
     Inr (PStr txt, self\<lparr>bracket_count := bracket_count self + 1\<rparr>)"

definition handle_close_bracket :: "RawScanner \<Rightarrow> string \<Rightarrow> raw_result" where
  "handle_close_bracket self txt =
     (if bracket_count self > min_bracket_count self
      then Inr (PStr txt, self\<lparr>bracket_count := bracket_count self - 1\<rparr>)
      else Inr (PStr txt, self))"

text \<open>
  \<^verbatim>\<open>
    def eof(self):
        if self.bracket_count == 0:
            self.produce("NEWLINE", "\n")
            self.outdent_to(0)
        self.produce("EOF")
  \<close>
\<close>

definition eof :: "RawScanner \<Rightarrow> (py_exn \<times> RawScanner) + RawScanner" where
  "eof self =
     (if bracket_count self = 0 then
        (case outdent_to (produce self (PStr ''NEWLINE'') (Some (PStr [newline]))) 0 of
           Inl e \<Rightarrow> Inl e
         | Inr self' \<Rightarrow> Inr (produce self' (PStr ''EOF'') None))
      else Inr (produce self (PStr ''EOF'') None))"

subsection \<open>The lexicon\<close>

definition digit :: re where "digit = Range ''09''"
definition letter :: re where "letter = Range ''azAZ''"

definition decimal_or_octal_number :: re where
  "decimal_or_octal_number =
     Seq (Seq (Rep1 digit) (Opt (Seq (Str ''.'') (Rep1 digit))))
         (Opt (Seq (Seq (Str ''E'') (Any ''+-'')) (Rep1 digit)))"

definition hex_number :: re where
  "hex_number = Seq (Str ''0x'') (Rep1 (Range ''09azAZ''))"

definition binary_number :: re where
  "binary_number = Seq (Str ''0b'') (Rep1 digit)"

definition string_literal :: re where
  "string_literal =
     Seq (Seq (Str [dquote])
              (Rep (Alt (Seq (Str [backslash])
                             (Any (''abcdefghijklmnopqrstuvwxyz'' @ [backslash, dquote])))
                        (AnyBut [backslash, dquote]))))
         (Str [dquote])"

definition ident :: re where
  "ident = Seq (Alt letter (Str ''_'')) (Rep (Alt (Alt letter (Str ''_'')) digit))"

definition punct :: re where
  "punct =
     Alt (Alt (Alt (Alt (Alt (Alt (Alt (Any ''|&^=<>*/%~+-:,.'')
       (Str ''=='')) (Str ''!='')) (Str ''<='')) (Str ''>='')) (Str ''<<'')) (Str ''>>''))
       (Str ''+/-'')"

text \<open>
  The rules of the default state, in the order of the source, and the one rule of
  the state \<^verbatim>\<open>indent\<close>.
\<close>

definition lexicon_default :: "(re \<times> action) list" where
  "lexicon_default =
     [(Alt (Alt decimal_or_octal_number hex_number) binary_number, Return ''NUMBER''),
      (string_literal, Return ''STRINGLIT''),
      (ident, Return ''IDENT''),
      (Any ''({['', Call handle_open_bracket),
      (Any '')}]'', Call handle_close_bracket),
      (Alt (Str [newline]) Eof, Call handle_newline),
      (punct, TEXT),
      (Rep1 (Str '' ''), IGNORE),
      (Seq (Seq (Str ''#'') (Rep (AnyBut [newline]))) (Opt (Str [newline])), Call handle_comment)]"

definition lexicon_indent :: "(re \<times> action) list" where
  "lexicon_indent =
     [(Seq (Rep (Str '' '')) (Opt (Str [newline])), Call handle_indentation)]"

definition lexicon :: "string \<Rightarrow> (re \<times> action) list" where
  "lexicon nm = (if nm = ''indent'' then lexicon_indent else lexicon_default)"

text \<open>
  \<^verbatim>\<open>RawScanner.__init__(stream, name, expression_only)\<close>, after the initialisation of
  plex (line 1, column 0, default state, empty queue). The stream is given by its
  contents. plex leaves \<^verbatim>\<open>text\<close> at \<^verbatim>\<open>None\<close> until the first scan; nothing reads it
  before, and it is the empty string here.
\<close>

definition RawScanner_init :: "string \<Rightarrow> string option \<Rightarrow> bool \<Rightarrow> RawScanner" where
  "RawScanner_init strm nm expression_only =
     (let self = \<lparr>stream = strm, cursor = InText, name = nm, cur_line = 1, cur_col = 0,
                   start_line = 0, start_col = 0, text = [], state_name = [], queue = [],
                   seen_one_indent = False, indents = [0],
                   bracket_count = (if expression_only then 1 else 0),
                   min_bracket_count = (if expression_only then 1 else 0)\<rparr>
      in if \<not> expression_only then begin_state self ''indent'' else self)"

subsection \<open>Scanning one token: \<^verbatim>\<open>plex.Scanner.scan_a_token\<close> and \<^verbatim>\<open>read\<close>\<close>

fun perform :: "action \<Rightarrow> RawScanner \<Rightarrow> string \<Rightarrow> raw_result" where
  "perform (Return v) self txt = Inr (PStr v, self)"
| "perform (Call f) self txt = f self txt"
| "perform TEXT self txt = Inr (PStr txt, self)"
| "perform IGNORE self txt = Inr (PNone, self)"

text \<open>The symbols the machine can read from where the cursor stands.\<close>

definition symbols :: "RawScanner \<Rightarrow> sym list" where
  "symbols self =
     (case cursor self of InText \<Rightarrow> map Ch (stream self) | OnEof \<Rightarrow> [EofSym] | AfterEof \<Rightarrow> [])"

text \<open>Line and column after reading a text: a newline starts the next line at column 0.\<close>

fun advance :: "string \<Rightarrow> int \<times> int \<Rightarrow> int \<times> int" where
  "advance [] (l, c) = (l, c)"
| "advance (x # xs) (l, c) = advance xs (if x = newline then (l + 1, 0) else (l, c + 1))"

definition sym_text :: "sym list \<Rightarrow> string" where
  "sym_text w = concat (map (\<lambda>a. case a of Ch c \<Rightarrow> [c] | EofSym \<Rightarrow> []) w)"

text \<open>
  \<^verbatim>\<open>scan_a_token\<close> records where the scan starts, runs the machine and returns the
  matched text with its action. When nothing matches, it returns \<^verbatim>\<open>('', None)\<close> at the
  end of the input and raises \<^verbatim>\<open>UnrecognizedInput\<close> elsewhere.
\<close>

definition scan_a_token ::
  "RawScanner \<Rightarrow> (py_exn \<times> RawScanner) + (string \<times> action option \<times> RawScanner)" where
  "scan_a_token self0 =
     (let self = self0\<lparr>start_line := cur_line self0, start_col := cur_col self0\<rparr>
      in case best_rule (lexicon (state_name self)) (symbols self) of
           Some (n, act) \<Rightarrow>
             (let w = take n (symbols self);
                  txt = sym_text w;
                  (l, c) = advance txt (cur_line self, cur_col self)
              in Inr (txt, Some act,
                   self\<lparr>stream := drop (length txt) (stream self),
                        cursor := (if EofSym \<in> set w then AfterEof else cursor self),
                        cur_line := l, cur_col := c\<rparr>))
         | None \<Rightarrow>
             if cursor self = InText \<and> stream self \<noteq> [] then Inl (UnrecognizedInput, self)
             else Inr ([], None,
                    self\<lparr>cursor := (if cursor self = InText then OnEof else cursor self)\<rparr>))"

text \<open>
  The body of the loop of \<^verbatim>\<open>plex.Scanner.read\<close>:
  \<^verbatim>\<open>
    self.text, action = self.scan_a_token()
    if action is None:
        self.produce(None)
        self.eof()
    else:
        value = action.perform(self, self.text)
        if value is not None:
            self.produce(value)
  \<close>
\<close>

definition read_step :: "RawScanner \<Rightarrow> (py_exn \<times> RawScanner) + RawScanner" where
  "read_step self0 =
     (case scan_a_token self0 of
        Inl e \<Rightarrow> Inl e
      | Inr (txt, act, self1) \<Rightarrow>
          (let self = self1\<lparr>text := txt\<rparr>
           in case act of
                None \<Rightarrow> eof (produce self PNone None)
              | Some a \<Rightarrow>
                  (case perform a self txt of
                     Inl e \<Rightarrow> Inl e
                   | Inr (v, self') \<Rightarrow>
                       if v \<noteq> PNone then Inr (produce self' v None) else Inr self')))"


subsection \<open>The matcher against the language of a pattern\<close>
lemma longest_sound:
  "longest r w k best = Some m \<Longrightarrow>
     best = Some m \<or> (\<exists>n \<le> length w. m = k + n \<and> take n w \<in> lang r)"
proof (induction w arbitrary: r k best)
  case Nil
  then show ?case by (auto simp: nullable_lang split: if_splits)
next
  case (Cons a w)
  from Cons.prems have "longest (deriv a r) w (Suc k) (if nullable r then Some k else best) = Some m"
    by simp
  from Cons.IH [OF this]
  consider "(if nullable r then Some k else best) = Some m"
    | n where "n \<le> length w" "m = Suc k + n" "take n w \<in> lang (deriv a r)"
    by blast
  then show ?case
  proof cases
    case 1
    then show ?thesis
      by (cases "nullable r") (auto simp: nullable_lang intro: exI [of _ 0])
  next
    case 2
    then have "Suc n \<le> length (a # w) \<and> m = k + Suc n \<and> take (Suc n) (a # w) \<in> lang r"
      by (simp add: lang_deriv)
    then show ?thesis by blast
  qed
qed

lemma match_len_sound:
  "match_len r w = Some n \<Longrightarrow> n \<le> length w \<and> take n w \<in> lang r"
  using longest_sound [of r w 0 None n] by (auto simp: match_len_def)

lemma match_len_pos: "match_len r w = Some n \<Longrightarrow> \<not> nullable r \<Longrightarrow> 0 < n"
  using match_len_sound [of r w n] by (cases n) (auto simp: nullable_lang)

lemma longest_none:
  "\<forall>j \<le> length w. take j w \<notin> lang r \<Longrightarrow> longest r w k best = best"
proof (induction w arbitrary: r k best)
  case Nil
  then show ?case by (simp add: nullable_lang)
next
  case (Cons a w)
  have n: "\<not> nullable r" using Cons.prems [rule_format, of 0] by (simp add: nullable_lang)
  have "\<forall>j \<le> length w. take j w \<notin> lang (deriv a r)"
  proof (intro allI impI)
    fix j assume "j \<le> length w"
    then show "take j w \<notin> lang (deriv a r)"
      using Cons.prems [rule_format, of "Suc j"] by (simp add: lang_deriv)
  qed
  from Cons.IH [OF this] n show ?case by simp
qed

lemma longest_greatest:
  "n \<le> length w \<Longrightarrow> take n w \<in> lang r \<Longrightarrow>
   \<forall>j. n < j \<and> j \<le> length w \<longrightarrow> take j w \<notin> lang r \<Longrightarrow>
   longest r w k best = Some (k + n)"
proof (induction w arbitrary: r k best n)
  case Nil
  then show ?case by (simp add: nullable_lang)
next
  case (Cons a w)
  show ?case
  proof (cases n)
    case 0
    have "\<forall>j \<le> length w. take j w \<notin> lang (deriv a r)"
    proof (intro allI impI)
      fix j assume "j \<le> length w"
      then show "take j w \<notin> lang (deriv a r)"
        using Cons.prems(3) [rule_format, of "Suc j"] 0 by (simp add: lang_deriv)
    qed
    from longest_none [OF this] Cons.prems(2) 0 show ?thesis
      by (simp add: nullable_lang)
  next
    case (Suc n')
    have 1: "n' \<le> length w" using Cons.prems(1) Suc by simp
    have 2: "take n' w \<in> lang (deriv a r)" using Cons.prems(2) Suc by (simp add: lang_deriv)
    have 3: "\<forall>j. n' < j \<and> j \<le> length w \<longrightarrow> take j w \<notin> lang (deriv a r)"
    proof (intro allI impI)
      fix j assume "n' < j \<and> j \<le> length w"
      then show "take j w \<notin> lang (deriv a r)"
        using Cons.prems(3) [rule_format, of "Suc j"] Suc by (simp add: lang_deriv)
    qed
    from Cons.IH [OF 1 2 3] Suc show ?thesis by simp
  qed
qed

lemma match_len_greatest:
  "n \<le> length w \<Longrightarrow> take n w \<in> lang r \<Longrightarrow>
   \<forall>j. n < j \<and> j \<le> length w \<longrightarrow> take j w \<notin> lang r \<Longrightarrow>
   match_len r w = Some n"
  using longest_greatest [of n w r 0 None] by (simp add: match_len_def)

lemma match_len_none:
  "\<forall>j \<le> length w. take j w \<notin> lang r \<Longrightarrow> match_len r w = None"
  using longest_none [of w r 0 None] by (simp add: match_len_def)

lemma best_rule_mem:
  "best_rule rs w = Some (n, a) \<Longrightarrow> \<exists>r. (r, a) \<in> set rs \<and> match_len r w = Some n"
proof (induction rs arbitrary: n a)
  case Nil
  then show ?case by simp
next
  case (Cons ra rs)
  obtain r0 a0 where ra: "ra = (r0, a0)" by (cases ra)
  from Cons.prems ra show ?case
    using Cons.IH by (fastforce split: option.splits if_splits)
qed

subsection \<open>\<^verbatim>\<open>outdent_to\<close> in closed form\<close>

text \<open>
  The loop pops the levels above \<open>new_level\<close> from the top and produces one
  \<^verbatim>\<open>OUTDENT\<close> for each.
\<close>

definition OUTDENT_tok :: "pyval \<times> pyval" where
  "OUTDENT_tok = (PStr ''OUTDENT'', PStr [])"

definition popped_stack :: "int list \<Rightarrow> int \<Rightarrow> int list" where
  "popped_stack ns new_level = rev (dropWhile (\<lambda>x. new_level < x) (rev ns))"

lemma popped_stack_snoc:
  "popped_stack (ns @ [x]) n = (if n < x then popped_stack ns n else ns @ [x])"
  by (simp add: popped_stack_def)

lemma popped_stack_length: "length (popped_stack ns n) \<le> length ns"
  by (simp add: popped_stack_def length_dropWhile_le [of _ "rev ns", simplified])

lemma outdent_to_closed:
  "outdent_to self n =
     (let ns = popped_stack (indents self) n;
          self' = self\<lparr>indents := ns,
                      queue := queue self @ replicate (length (indents self) - length ns) OUTDENT_tok\<rparr>
      in if ns = [] then Inl (IndexError, self')
         else if last ns \<noteq> n then Inl (IndentationError (position self), self')
         else Inr self')"
proof (induction self n rule: outdent_to.induct)
  case (1 self n)
  show ?case
  proof (cases "indents self = []")
    case True
    then show ?thesis by (subst outdent_to.simps) (simp add: popped_stack_def)
  next
    case False
    then obtain ns x where ns: "indents self = ns @ [x]" by (metis rev_exhaust)
    show ?thesis
    proof (cases "n < x")
      case True
      have le: "length (popped_stack ns n) \<le> length ns" by (rule popped_stack_length)
      have rep: "OUTDENT_tok # replicate (length ns - length (popped_stack ns n)) OUTDENT_tok =
                 replicate (Suc (length ns) - length (popped_stack ns n)) OUTDENT_tok"
        using le by (simp add: Suc_diff_le)
      from True ns "1.IH" [OF False] show ?thesis
        by (subst outdent_to.simps)
           (simp add: popped_stack_snoc produce_def position_def Let_def rep OUTDENT_tok_def [symmetric])
    next
      case False
      with ns show ?thesis
        by (subst outdent_to.simps) (simp add: popped_stack_snoc Let_def)
    qed
  qed
qed


subsection \<open>The loop of \<^verbatim>\<open>plex.Scanner.read\<close> ends\<close>

text \<open>
  A pass through the loop body that produces nothing either consumes input or
  leaves the state \<^verbatim>\<open>indent\<close>.
\<close>

definition cursor_weight :: "cursor \<Rightarrow> nat" where
  "cursor_weight c = (case c of InText \<Rightarrow> 4 | OnEof \<Rightarrow> 2 | AfterEof \<Rightarrow> 0)"

definition input_left :: "RawScanner \<Rightarrow> nat" where
  "input_left self = 2 * length (stream self) + cursor_weight (cursor self)"

definition read_measure :: "RawScanner \<Rightarrow> nat" where
  "read_measure self = input_left self + (if state_name self = ''indent'' then 1 else 0)"

lemma sym_text_map_Ch [simp]: "sym_text (map Ch xs) = xs"
  by (induction xs) (simp_all add: sym_text_def)

lemma lexicon_default_not_nullable: "(r, a) \<in> set lexicon_default \<Longrightarrow> \<not> nullable r"
  by (auto simp: lexicon_default_def decimal_or_octal_number_def hex_number_def
      binary_number_def string_literal_def ident_def punct_def digit_def letter_def)

lemma eof_queue: "eof self = Inr self' \<Longrightarrow> queue self' \<noteq> []"
  by (auto simp: eof_def outdent_to_closed produce_def Let_def split: if_splits)

lemma eof_input_left: "eof self = Inr self' \<Longrightarrow> input_left self' = input_left self"
  by (auto simp: eof_def outdent_to_closed produce_def Let_def input_left_def split: if_splits)

lemma handle_indentation_quiet:
  "handle_indentation self txt = Inr (v, self') \<Longrightarrow> queue self' = [] \<Longrightarrow>
     state_name self' = [] \<and> stream self' = stream self \<and> cursor self' = cursor self"
  by (auto simp: handle_indentation_def outdent_to_closed produce_def begin_state_def Let_def
      split: if_splits)

lemma perform_default_frame:
  "(r, a) \<in> set lexicon_default \<Longrightarrow> perform a self txt = Inr (v, self') \<Longrightarrow>
     stream self' = stream self \<and> cursor self' = cursor self"
  by (auto simp: lexicon_default_def handle_open_bracket_def handle_close_bracket_def
      handle_newline_def handle_comment_def produce_def begin_state_def split: if_splits)

lemma scan_a_token_consumes:
  assumes "scan_a_token self = Inr (txt, Some a, self1)"
  shows "\<exists>r n. (r, a) \<in> set (lexicon (state_name self)) \<and>
           match_len r (symbols self) = Some n \<and>
           state_name self1 = state_name self \<and>
           input_left self1 \<le> input_left self \<and>
           (0 < n \<longrightarrow> input_left self1 + 2 \<le> input_left self)"
proof -
  let ?s = "self\<lparr>start_line := cur_line self, start_col := cur_col self\<rparr>"
  have sy: "symbols ?s = symbols self" by (simp add: symbols_def split: cursor.splits)
  from assms obtain n where b: "best_rule (lexicon (state_name self)) (symbols self) = Some (n, a)"
    by (auto simp: scan_a_token_def Let_def sy split: option.splits if_splits prod.splits)
  from best_rule_mem [OF b] obtain r where r: "(r, a) \<in> set (lexicon (state_name self))"
      and m: "match_len r (symbols self) = Some n"
    by blast
  from m have le: "n \<le> length (symbols self)" by (simp add: match_len_sound)
  from assms b have s1:
    "stream self1 = drop (length (sym_text (take n (symbols self)))) (stream self)"
    "cursor self1 = (if EofSym \<in> set (take n (symbols self)) then AfterEof else cursor self)"
    "state_name self1 = state_name self"
    by (auto simp: scan_a_token_def Let_def sy split: prod.splits)
  have "input_left self1 \<le> input_left self \<and> (0 < n \<longrightarrow> input_left self1 + 2 \<le> input_left self)"
  proof (cases "cursor self")
    case InText
    with le s1 show ?thesis
      by (auto simp: symbols_def input_left_def take_map cursor_weight_def)
  next
    case OnEof
    with le s1 show ?thesis
      by (cases n) (auto simp: symbols_def input_left_def cursor_weight_def)
  next
    case AfterEof
    with le s1 show ?thesis
      by (auto simp: symbols_def input_left_def cursor_weight_def)
  qed
  with r m s1(3) show ?thesis by blast
qed

lemma read_step_decreases:
  assumes "read_step self = Inr self'" and "queue self' = []"
  shows "read_measure self' < read_measure self"
proof (cases "scan_a_token self")
  case (Inl e)
  with assms show ?thesis by (simp add: read_step_def)
next
  case (Inr res)
  obtain tx act self1 where res: "res = (tx, act, self1)" by (cases res)
  show ?thesis
  proof (cases act)
    case None
    with assms Inr res have "eof (produce (self1\<lparr>text := tx\<rparr>) PNone None) = Inr self'"
      by (simp add: read_step_def)
    from eof_queue [OF this] assms(2) show ?thesis by simp
  next
    case (Some a)
    from Inr res Some have sc: "scan_a_token self = Inr (tx, Some a, self1)" by simp
    from scan_a_token_consumes [OF sc] obtain r n where
      r: "(r, a) \<in> set (lexicon (state_name self))" and
      m: "match_len r (symbols self) = Some n" and
      sn: "state_name self1 = state_name self" and
      le: "input_left self1 \<le> input_left self" and
      lt: "0 < n \<longrightarrow> input_left self1 + 2 \<le> input_left self"
      by blast
    let ?s = "self1\<lparr>text := tx\<rparr>"
    from assms sc obtain v self2 where
      p: "perform a ?s tx = Inr (v, self2)" and
      q: "queue self2 = []" and
      e: "self' = self2 \<or> self' = produce self2 v None"
      by (auto simp: read_step_def Let_def produce_def split: sum.splits if_splits)
    from e q assms(2) have e': "self' = self2" by (auto simp: produce_def)
    show ?thesis
    proof (cases "state_name self = ''indent''")
      case True
      with r have "a = Call handle_indentation" by (simp add: lexicon_def lexicon_indent_def)
      with p have "handle_indentation ?s tx = Inr (v, self2)" by simp
      from handle_indentation_quiet [OF this q] le True e' show ?thesis
        by (simp add: read_measure_def input_left_def)
    next
      case False
      with r have rd: "(r, a) \<in> set lexicon_default" by (simp add: lexicon_def)
      from match_len_pos [OF m lexicon_default_not_nullable [OF rd]] lt
      have "input_left self1 + 2 \<le> input_left self" by simp
      with perform_default_frame [OF rd p] e' False show ?thesis
        by (simp add: read_measure_def input_left_def)
    qed
  qed
qed

text \<open>
  \<^verbatim>\<open>
    queue = self.queue
    while not queue:
        ... (the loop body, \<open>read_step\<close>)
    result = queue[0]
    del queue[0]
    return result
  \<close>
  \<open>read_loop\<close> is the loop entered with an empty queue.
\<close>

function read_loop :: "RawScanner \<Rightarrow> (py_exn \<times> RawScanner) + RawScanner" where
  "read_loop self =
     (case read_step self of
        Inl e \<Rightarrow> Inl e
      | Inr self' \<Rightarrow> if queue self' = [] then read_loop self' else Inr self')"
  by pat_completeness auto
termination
  by (relation "measure read_measure") (auto simp: read_step_decreases)

declare read_loop.simps [simp del]

definition raw_read ::
  "RawScanner \<Rightarrow> (py_exn \<times> RawScanner) + ((pyval \<times> pyval) \<times> RawScanner)" where
  "raw_read self =
     (case (if queue self = [] then read_loop self else Inr self) of
        Inl e \<Rightarrow> Inl e
      | Inr self' \<Rightarrow>
          (case queue self' of
             [] \<Rightarrow> Inl (IndexError, self')
           | result # rest \<Rightarrow> Inr (result, self'\<lparr>queue := rest\<rparr>)))"


section \<open>The lookahead scanner: \<^verbatim>\<open>class Scanner\<close>\<close>

record Scanner =
  raw_scanner :: RawScanner
  peeked :: "token option"
  peeking :: bool
  last_token :: token
  force_eof :: bool

definition SourceLocation :: "string option \<Rightarrow> int \<Rightarrow> int \<Rightarrow> source_location" where
  "SourceLocation f l c = \<lparr>filename = f, line = l, column = c\<rparr>"

definition SourceRange :: "source_location \<Rightarrow> source_location \<Rightarrow> source_range" where
  "SourceRange s e = \<lparr>start = s, end = e\<rparr>"

definition Scanner_init :: "string \<Rightarrow> string option \<Rightarrow> bool \<Rightarrow> Scanner" where
  "Scanner_init strm nm expression_only =
     \<lparr>raw_scanner = RawScanner_init strm nm expression_only,
      peeked = None,
      peeking = False,
      last_token = Token (PStr ''BEGIN'') PNone
        (Some (SourceRange (SourceLocation nm 1 1) (SourceLocation nm 1 1))),
      force_eof = False\<rparr>"

text \<open>\<^verbatim>\<open>len\<close> is defined on strings; on the other values of a token it raises \<^verbatim>\<open>TypeError\<close>.\<close>

definition py_len :: "pyval \<Rightarrow> py_exn + int" where
  "py_len v = (case v of PStr s \<Rightarrow> Inr (int (length s)) | _ \<Rightarrow> Inl TypeError)"

text \<open>
  The \<^verbatim>\<open>except\<close> clauses of \<^verbatim>\<open>peek\<close>, followed by its \<^verbatim>\<open>finally\<close> clause. In the first
  clause \<^verbatim>\<open>self.raw_position\<close> is the property; \<^verbatim>\<open>peeking\<close> is set there, so it is
  \<^verbatim>\<open>self.raw_scanner.position()\<close>. An exception of another class passes through.
\<close>

definition peek_except :: "py_exn \<Rightarrow> Scanner \<Rightarrow> (py_exn + token) \<times> Scanner" where
  "peek_except ex self =
     (case ex of
        UnrecognizedInput \<Rightarrow>
          (let raw_position = position (raw_scanner self);
               t = Token (PStr ''ERROR'')
                     (PDiag (InvalidCharacter
                        (SourceLocation (fst raw_position) (fst (snd raw_position))
                           (snd (snd raw_position) + 1))))
                     None
           in (Inr t, self\<lparr>peeked := Some t, force_eof := True, peeking := False\<rparr>))
      | IndentationError raw_position \<Rightarrow>
          (let t = Token (PStr ''ERROR'')
                     (PDiag (InvalidIndentation
                        (SourceLocation (fst raw_position) (fst (snd raw_position))
                           (snd (snd raw_position) + 1))))
                     None
           in (Inr t, self\<lparr>peeked := Some t, force_eof := True, peeking := False\<rparr>))
      | _ \<Rightarrow> (Inl ex, self\<lparr>peeking := False\<rparr>))"

text \<open>
  The \<^verbatim>\<open>try\<close> block of \<^verbatim>\<open>peek\<close>: read a raw token, skip the \<^verbatim>\<open>(None, '')\<close> that plex
  generates at the end of the file, and build the token with its range.
\<close>

definition peek_try :: "Scanner \<Rightarrow> (py_exn + token) \<times> Scanner" where
  "peek_try self =
     (case raw_read (raw_scanner self) of
        Inl (ex, rs) \<Rightarrow> peek_except ex (self\<lparr>raw_scanner := rs\<rparr>)
      | Inr (raw_peeked0, rs0) \<Rightarrow>
          (case (if fst raw_peeked0 = PNone then raw_read rs0 else Inr (raw_peeked0, rs0)) of
             Inl (ex, rs) \<Rightarrow> peek_except ex (self\<lparr>raw_scanner := rs\<rparr>)
           | Inr (raw_peeked, rs) \<Rightarrow>
               (let self1 = self\<lparr>raw_scanner := rs\<rparr>;
                    raw_position = position rs
                in case (if fst raw_peeked \<in> {PStr ''NEWLINE'', PStr ''INDENT'', PStr ''OUTDENT''}
                         then Inr 0 else py_len (snd raw_peeked)) of
                     Inl ex \<Rightarrow> peek_except ex self1
                   | Inr token_length \<Rightarrow>
                       (let source_range =
                              SourceRange
                                (SourceLocation (fst raw_position) (fst (snd raw_position))
                                   (snd (snd raw_position) + 1))
                                (SourceLocation (fst raw_position) (fst (snd raw_position))
                                   (snd (snd raw_position) + token_length + 1));
                            t = Token (fst raw_peeked) (snd raw_peeked) (Some source_range)
                        in (Inr t, self1\<lparr>peeked := Some t, peeking := False\<rparr>)))))"

text \<open>
  \<^verbatim>\<open>peek\<close>: the cached token if there is one; otherwise, with \<^verbatim>\<open>force_eof\<close> set, a
  synthetic \<^verbatim>\<open>EOF\<close> token (this branch returns before the \<^verbatim>\<open>try\<close>, so \<^verbatim>\<open>peeking\<close>
  stays set); otherwise the \<^verbatim>\<open>try\<close> block.
\<close>

definition peek :: "Scanner \<Rightarrow> (py_exn + token) \<times> Scanner" where
  "peek self0 =
     (case peeked self0 of
        Some t \<Rightarrow> (Inr t, self0)
      | None \<Rightarrow>
          (let self = self0\<lparr>peeking := True\<rparr>
           in if force_eof self then
                (let t = Token (PStr ''EOF'') PNone (source_range (last_token self))
                 in (Inr t, self\<lparr>peeked := Some t\<rparr>))
              else peek_try self))"

text \<open>
  \<^verbatim>\<open>
    def read(self):
        result = self.peek()
        self.peeked = None
        self.last_token = result
        return result
  \<close>
\<close>

definition read :: "Scanner \<Rightarrow> (py_exn + token) \<times> Scanner" where
  "read self =
     (case peek self of
        (Inl ex, self1) \<Rightarrow> (Inl ex, self1)
      | (Inr result, self1) \<Rightarrow> (Inr result, self1\<lparr>peeked := None, last_token := result\<rparr>))"

subsection \<open>The predicates \<^verbatim>\<open>next_is_*\<close> and the assertions \<^verbatim>\<open>require_*\<close>\<close>

text \<open>
  \<^verbatim>\<open>next_is_punct\<close>: \<^verbatim>\<open>token[0] == symbol and token[1] == symbol\<close> on the peeked token,
  where \<^verbatim>\<open>token[0]\<close> is its type and \<^verbatim>\<open>token[1]\<close> its value; \<^verbatim>\<open>next_is_keyword\<close>:
  \<^verbatim>\<open>token[0] == "IDENT" and token[1] == name\<close>. The other five compare the type only.
\<close>

definition next_is_punct :: "Scanner \<Rightarrow> string \<Rightarrow> (py_exn + bool) \<times> Scanner" where
  "next_is_punct self symbol =
     (case peek self of
        (Inl ex, self1) \<Rightarrow> (Inl ex, self1)
      | (Inr t, self1) \<Rightarrow> (Inr (type t = PStr symbol \<and> value t = PStr symbol), self1))"

definition next_is_keyword :: "Scanner \<Rightarrow> string \<Rightarrow> (py_exn + bool) \<times> Scanner" where
  "next_is_keyword self nm =
     (case peek self of
        (Inl ex, self1) \<Rightarrow> (Inl ex, self1)
      | (Inr t, self1) \<Rightarrow> (Inr (type t = PStr ''IDENT'' \<and> value t = PStr nm), self1))"

definition next_is_type :: "string \<Rightarrow> Scanner \<Rightarrow> (py_exn + bool) \<times> Scanner" where
  "next_is_type ty self =
     (case peek self of
        (Inl ex, self1) \<Rightarrow> (Inl ex, self1)
      | (Inr t, self1) \<Rightarrow> (Inr (type t = PStr ty), self1))"

definition next_is_newline :: "Scanner \<Rightarrow> (py_exn + bool) \<times> Scanner" where
  "next_is_newline = next_is_type ''NEWLINE''"

definition next_is_indent :: "Scanner \<Rightarrow> (py_exn + bool) \<times> Scanner" where
  "next_is_indent = next_is_type ''INDENT''"

definition next_is_outdent :: "Scanner \<Rightarrow> (py_exn + bool) \<times> Scanner" where
  "next_is_outdent = next_is_type ''OUTDENT''"

definition next_is_eof :: "Scanner \<Rightarrow> (py_exn + bool) \<times> Scanner" where
  "next_is_eof = next_is_type ''EOF''"

definition next_is_error :: "Scanner \<Rightarrow> (py_exn + bool) \<times> Scanner" where
  "next_is_error = next_is_type ''ERROR''"

text \<open>
  \<^verbatim>\<open>raise v\<close>: a diagnostic object is raised as it is; raising \<^verbatim>\<open>None\<close>, a string or a
  number is a \<^verbatim>\<open>TypeError\<close>.
  \<^verbatim>\<open>
    def raise_if_next_is_error(self):
        if self.next_is_error():
            raise self.peek().value
  \<close>
\<close>

definition raise_value :: "pyval \<Rightarrow> py_exn" where
  "raise_value v = (case v of PDiag d \<Rightarrow> Raised d | _ \<Rightarrow> TypeError)"

definition raise_if_next_is_error :: "Scanner \<Rightarrow> (py_exn + unit) \<times> Scanner" where
  "raise_if_next_is_error self =
     (case next_is_error self of
        (Inl ex, self1) \<Rightarrow> (Inl ex, self1)
      | (Inr b, self1) \<Rightarrow>
          if b then
            (case peek self1 of
               (Inl ex, self2) \<Rightarrow> (Inl ex, self2)
             | (Inr t, self2) \<Rightarrow> (Inl (raise_value (value t)), self2))
          else (Inr (), self1))"

text \<open>
  The six \<^verbatim>\<open>require_*\<close> methods have one body, with their own predicate and wanted
  token:
  \<^verbatim>\<open>
    if not self.next_is_...(...):
        self.raise_if_next_is_error()
        raise diag.UnexpectedToken(wanted_token=Token(...), got_token=self.peek())
    return self.read()
  \<close>
\<close>

definition require ::
  "(Scanner \<Rightarrow> (py_exn + bool) \<times> Scanner) \<Rightarrow> token \<Rightarrow> Scanner \<Rightarrow> (py_exn + token) \<times> Scanner" where
  "require next_is wanted_token self =
     (case next_is self of
        (Inl ex, self1) \<Rightarrow> (Inl ex, self1)
      | (Inr b, self1) \<Rightarrow>
          if \<not> b then
            (case raise_if_next_is_error self1 of
               (Inl ex, self2) \<Rightarrow> (Inl ex, self2)
             | (Inr u, self2) \<Rightarrow>
                 (case peek self2 of
                    (Inl ex, self3) \<Rightarrow> (Inl ex, self3)
                  | (Inr got_token, self3) \<Rightarrow>
                      (Inl (UnexpectedToken wanted_token got_token), self3)))
          else read self1)"

definition require_punct :: "Scanner \<Rightarrow> string \<Rightarrow> (py_exn + token) \<times> Scanner" where
  "require_punct self symbol =
     require (\<lambda>s. next_is_punct s symbol) (Token (PStr ''PUNCT'') (PStr symbol) None) self"

definition require_keyword :: "Scanner \<Rightarrow> string \<Rightarrow> (py_exn + token) \<times> Scanner" where
  "require_keyword self nm =
     require (\<lambda>s. next_is_keyword s nm) (Token (PStr ''IDENT'') (PStr nm) None) self"

definition require_indent :: "Scanner \<Rightarrow> (py_exn + token) \<times> Scanner" where
  "require_indent self = require next_is_indent (Token (PStr ''INDENT'') (PInt 4) None) self"

definition require_outdent :: "Scanner \<Rightarrow> (py_exn + token) \<times> Scanner" where
  "require_outdent self = require next_is_outdent (Token (PStr ''OUTDENT'') (PInt 4) None) self"

definition require_newline :: "Scanner \<Rightarrow> (py_exn + token) \<times> Scanner" where
  "require_newline self =
     require next_is_newline (Token (PStr ''NEWLINE'') (PStr [newline]) None) self"

definition require_eof :: "Scanner \<Rightarrow> (py_exn + token) \<times> Scanner" where
  "require_eof self = require next_is_eof (Token (PStr ''EOF'') PNone None) self"

subsection \<open>Sequences of calls\<close>

text \<open>
  Every method of \<^verbatim>\<open>Scanner\<close> changes the scanner through \<^verbatim>\<open>peek\<close> and \<^verbatim>\<open>read\<close> only,
  so the states a scanner can be in are those reached from \<^verbatim>\<open>Scanner(...)\<close> by a
  sequence of these two calls. \<open>run_calls\<close> returns the results of the calls and
  the final state; \<open>raw_reads n\<close> does the same for \<open>n\<close> reads of a raw scanner,
  stopping at the first exception.
\<close>

datatype call = Peek | Read

fun do_call :: "call \<Rightarrow> Scanner \<Rightarrow> (py_exn + token) \<times> Scanner" where
  "do_call Peek self = peek self"
| "do_call Read self = read self"

fun run_calls :: "call list \<Rightarrow> Scanner \<Rightarrow> (py_exn + token) list \<times> Scanner" where
  "run_calls [] self = ([], self)"
| "run_calls (c # cs) self =
     (case do_call c self of
        (r, self1) \<Rightarrow> (case run_calls cs self1 of (rs, self2) \<Rightarrow> (r # rs, self2)))"

fun raw_reads :: "nat \<Rightarrow> RawScanner \<Rightarrow> (pyval \<times> pyval) list \<times> RawScanner" where
  "raw_reads 0 self = ([], self)"
| "raw_reads (Suc n) self =
     (case raw_read self of
        Inl (ex, self1) \<Rightarrow> ([], self1)
      | Inr (tok, self1) \<Rightarrow> (case raw_reads n self1 of (ts, self2) \<Rightarrow> (tok # ts, self2)))"


section \<open>Invariants of the raw lexer\<close>

text \<open>
  The indentation stack is never empty, has 0 at the bottom and ascends strictly;
  no queued token has the type \<^verbatim>\<open>ERROR\<close>, and the text of a queued token is a string
  unless the token is an \<^verbatim>\<open>INDENT\<close>; the state \<^verbatim>\<open>indent\<close> is entered outside brackets
  only. \<open>balance\<close> counts the \<^verbatim>\<open>INDENT\<close>s minus the \<^verbatim>\<open>OUTDENT\<close>s of a list of tokens.
\<close>

definition stack_ok :: "int list \<Rightarrow> bool" where
  "stack_ok ns = (ns \<noteq> [] \<and> hd ns = 0 \<and> sorted_wrt (<) ns)"

definition queue_ok :: "(pyval \<times> pyval) list \<Rightarrow> bool" where
  "queue_ok q =
     (\<forall>(v, t) \<in> set q. v \<noteq> PStr ''ERROR'' \<and> (v = PStr ''INDENT'' \<or> (\<exists>s. t = PStr s)))"

definition balance :: "(pyval \<times> pyval) list \<Rightarrow> int" where
  "balance q = int (length (filter (\<lambda>(v, t). v = PStr ''INDENT'') q))
             - int (length (filter (\<lambda>(v, t). v = PStr ''OUTDENT'') q))"

definition level_gap :: "RawScanner \<Rightarrow> int" where
  "level_gap self = int (length (indents self)) - 1 - balance (queue self)"

definition raw_inv :: "RawScanner \<Rightarrow> bool" where
  "raw_inv self =
     (stack_ok (indents self) \<and> queue_ok (queue self) \<and>
      (state_name self = ''indent'' \<longrightarrow> bracket_count self = 0))"

lemma balance_append [simp]: "balance (q @ q') = balance q + balance q'"
  by (simp add: balance_def)

lemma balance_Nil [simp]: "balance [] = 0"
  by (simp add: balance_def)

lemma balance_replicate_OUTDENT [simp]: "balance (replicate k OUTDENT_tok) = - int k"
  by (induction k) (simp_all add: balance_def OUTDENT_tok_def)

lemma queue_ok_append [simp]: "queue_ok (q @ q') = (queue_ok q \<and> queue_ok q')"
  by (auto simp: queue_ok_def)

lemma queue_ok_replicate_OUTDENT [simp]: "queue_ok (replicate k OUTDENT_tok)"
  by (auto simp: queue_ok_def OUTDENT_tok_def)

lemma stack_ok_butlast: "stack_ok (ns @ [x]) \<Longrightarrow> ns \<noteq> [] \<Longrightarrow> stack_ok ns"
  by (cases ns) (auto simp: stack_ok_def sorted_wrt_append)

lemma stack_ok_popped: "stack_ok ns \<Longrightarrow> 0 \<le> n \<Longrightarrow> stack_ok (popped_stack ns n)"
proof (induction ns rule: rev_induct)
  case Nil
  then show ?case by (simp add: stack_ok_def)
next
  case (snoc x ns)
  show ?case
  proof (cases "n < x")
    case True
    with snoc.prems have "ns \<noteq> []" by (cases ns) (auto simp: stack_ok_def)
    with snoc True show ?thesis by (simp add: popped_stack_snoc stack_ok_butlast)
  next
    case False
    with snoc.prems show ?thesis by (simp add: popped_stack_snoc)
  qed
qed

lemma stack_ok_push: "stack_ok ns \<Longrightarrow> last ns < x \<Longrightarrow> stack_ok (ns @ [x])"
proof -
  assume a: "stack_ok ns" and b: "last ns < x"
  have "\<forall>y \<in> set ns. y < x"
  proof
    fix y assume y: "y \<in> set ns"
    from a have ne: "ns \<noteq> []" and so: "sorted_wrt (<) ns" by (simp_all add: stack_ok_def)
    from ne obtain ms z where ns: "ns = ms @ [z]" by (metis rev_exhaust)
    with so y have "y \<le> z" by (auto simp: sorted_wrt_append)
    with b ns show "y < x" by simp
  qed
  with a show ?thesis by (cases ns) (auto simp: stack_ok_def sorted_wrt_append)
qed

lemma outdent_to_inv:
  assumes "raw_inv self" and "0 \<le> n"
  shows "case outdent_to self n of
           Inr self' \<Rightarrow> raw_inv self' \<and> level_gap self' = level_gap self \<and>
             state_name self' = state_name self \<and> bracket_count self' = bracket_count self
         | Inl (ex, self') \<Rightarrow> raw_inv self' \<and> level_gap self' = level_gap self \<and>
             ex = IndentationError (position self)"
proof -
  have ok: "stack_ok (popped_stack (indents self) n)"
    using assms by (simp add: raw_inv_def stack_ok_popped)
  have le: "length (popped_stack (indents self) n) \<le> length (indents self)"
    by (rule popped_stack_length)
  from ok le assms(1) show ?thesis
    by (auto simp: outdent_to_closed Let_def raw_inv_def level_gap_def stack_ok_def)
qed


lemma punct_short: "w \<in> lang punct \<Longrightarrow> length (sym_text w) \<le> 3"
  by (auto simp: punct_def sym_text_def)

lemma handle_indentation_inv:
  assumes "raw_inv self"
  shows "case handle_indentation self tx of
           Inr (v, self') \<Rightarrow> v = PNone \<and> raw_inv self' \<and> level_gap self' = level_gap self
         | Inl (ex, self') \<Rightarrow> raw_inv self' \<and> level_gap self' = level_gap self \<and>
             ex = IndentationError (position self)"
proof -
  from assms have ne: "indents self \<noteq> []" by (simp add: raw_inv_def stack_ok_def)
  let ?n = "int (length tx)"
  consider (blank) "?n > 0 \<and> last tx = newline"
    | (push) "\<not> (?n > 0 \<and> last tx = newline)" "?n > last (indents self)"
    | (pop) "\<not> (?n > 0 \<and> last tx = newline)" "?n < last (indents self)"
    | (same) "\<not> (?n > 0 \<and> last tx = newline)" "?n = last (indents self)"
    by linarith
  then show ?thesis
  proof cases
    case blank
    with assms ne show ?thesis
      by (simp add: handle_indentation_def Let_def produce_def raw_inv_def level_gap_def queue_ok_def
          balance_def)
  next
    case push
    from assms push(2) have "stack_ok (indents self @ [?n])"
      by (simp add: raw_inv_def stack_ok_push)
    with assms ne push show ?thesis
      by (simp add: handle_indentation_def Let_def produce_def begin_state_def raw_inv_def level_gap_def
          queue_ok_def balance_def)
  next
    case pop
    have "0 \<le> ?n" by simp
    from outdent_to_inv [OF assms this] ne pop show ?thesis
      by (auto simp: handle_indentation_def Let_def begin_state_def raw_inv_def level_gap_def
          split: sum.splits)
  next
    case same
    with assms ne show ?thesis
      by (auto simp add: handle_indentation_def Let_def begin_state_def raw_inv_def level_gap_def)
  qed
qed

lemma perform_default_inv:
  assumes "raw_inv self" and "state_name self \<noteq> ''indent''"
    and "(r, a) \<in> set lexicon_default" and "w \<in> lang r" and "text self = sym_text w"
  shows "\<exists>v self'. perform a self (sym_text w) = Inr (v, self') \<and>
           raw_inv (if v \<noteq> PNone then produce self' v None else self') \<and>
           level_gap (if v \<noteq> PNone then produce self' v None else self') = level_gap self"
proof -
  from assms(3) consider
      "a = Return ''NUMBER''" | "a = Return ''STRINGLIT''" | "a = Return ''IDENT''"
    | "r = Any ''({[''" "a = Call handle_open_bracket"
    | "r = Any '')}]''" "a = Call handle_close_bracket"
    | "a = Call handle_newline"
    | "r = punct" "a = TEXT"
    | "a = IGNORE"
    | "r = Seq (Seq (Str ''#'') (Rep (AnyBut [newline]))) (Opt (Str [newline]))"
      "a = Call handle_comment"
    by (auto simp: lexicon_default_def)
  then show ?thesis
  proof cases
    case 1
    with assms(1) show ?thesis
      by (simp add: produce_def raw_inv_def level_gap_def queue_ok_def balance_def)
  next
    case 2
    with assms(1) show ?thesis
      by (simp add: produce_def raw_inv_def level_gap_def queue_ok_def balance_def)
  next
    case 3
    with assms(1) show ?thesis
      by (simp add: produce_def raw_inv_def level_gap_def queue_ok_def balance_def)
  next
    case 4
    with assms(4) have "length (sym_text w) = 1" by (auto simp: sym_text_def)
    then have "sym_text w \<noteq> ''ERROR'' \<and> sym_text w \<noteq> ''INDENT'' \<and> sym_text w \<noteq> ''OUTDENT''"
      by auto
    with 4 assms(1,2) show ?thesis
      by (simp add: handle_open_bracket_def produce_def raw_inv_def level_gap_def queue_ok_def
          balance_def)
  next
    case 5
    with assms(4) have "length (sym_text w) = 1" by (auto simp: sym_text_def)
    then have "sym_text w \<noteq> ''ERROR'' \<and> sym_text w \<noteq> ''INDENT'' \<and> sym_text w \<noteq> ''OUTDENT''"
      by auto
    with 5 assms(1,2) show ?thesis
      by (simp add: handle_close_bracket_def produce_def raw_inv_def level_gap_def queue_ok_def
          balance_def)
  next
    case 6
    with assms(1) show ?thesis
      by (simp add: handle_newline_def begin_state_def produce_def raw_inv_def level_gap_def
          queue_ok_def balance_def)
  next
    case 7
    with assms(4) have "length (sym_text w) \<le> 3" by (simp add: punct_short)
    then have "sym_text w \<noteq> ''ERROR'' \<and> sym_text w \<noteq> ''INDENT'' \<and> sym_text w \<noteq> ''OUTDENT''"
      by auto
    with 7 assms(1) show ?thesis
      by (simp add: produce_def raw_inv_def level_gap_def queue_ok_def balance_def)
  next
    case 8
    with assms(1) show ?thesis by simp
  next
    case 9
    with assms(4) have "sym_text w \<noteq> []"
      by (auto simp: conc_def sym_text_def)
    with 9 assms(1) show ?thesis
      by (simp add: handle_comment_def begin_state_def produce_def raw_inv_def level_gap_def
          queue_ok_def balance_def)
  qed
qed


text \<open>The two exceptions that \<^verbatim>\<open>peek\<close> turns into \<^verbatim>\<open>ERROR\<close> tokens.\<close>

fun lexical :: "py_exn \<Rightarrow> bool" where
  "lexical UnrecognizedInput = True"
| "lexical (IndentationError p) = True"
| "lexical ex = False"

lemma scan_a_token_Inl:
  "scan_a_token self = Inl (ex, self1) \<Longrightarrow>
     ex = UnrecognizedInput \<and>
     self1 = self\<lparr>start_line := cur_line self, start_col := cur_col self\<rparr>"
  by (auto simp: scan_a_token_def Let_def split: option.splits if_splits prod.splits)

lemma scan_a_token_None:
  "scan_a_token self = Inr (tx, None, self1) \<Longrightarrow>
     tx = [] \<and>
     self1 = self\<lparr>start_line := cur_line self, start_col := cur_col self,
                  cursor := (if cursor self = InText then OnEof else cursor self)\<rparr>"
  by (auto simp: scan_a_token_def Let_def split: option.splits if_splits prod.splits)

lemma scan_a_token_Some:
  assumes "scan_a_token self = Inr (tx, Some a, self1)"
  shows "\<exists>r n. (r, a) \<in> set (lexicon (state_name self)) \<and>
           match_len r (symbols self) = Some n \<and>
           tx = sym_text (take n (symbols self)) \<and>
           indents self1 = indents self \<and> queue self1 = queue self \<and>
           state_name self1 = state_name self \<and> bracket_count self1 = bracket_count self \<and>
           min_bracket_count self1 = min_bracket_count self \<and> name self1 = name self \<and>
           start_line self1 = cur_line self \<and> start_col self1 = cur_col self"
proof -
  let ?s = "self\<lparr>start_line := cur_line self, start_col := cur_col self\<rparr>"
  have sy: "symbols ?s = symbols self" by (simp add: symbols_def split: cursor.splits)
  from assms obtain n where b: "best_rule (lexicon (state_name self)) (symbols self) = Some (n, a)"
    by (auto simp: scan_a_token_def Let_def sy split: option.splits if_splits prod.splits)
  from best_rule_mem [OF b] obtain r where r: "(r, a) \<in> set (lexicon (state_name self))"
      and m: "match_len r (symbols self) = Some n"
    by blast
  from assms b r m show ?thesis
    by (auto simp: scan_a_token_def Let_def sy split: prod.splits)
qed

lemma produce_plain:
  assumes "raw_inv self" and "v \<noteq> PStr ''ERROR''" and "v \<noteq> PStr ''INDENT''"
    and "v \<noteq> PStr ''OUTDENT''" and "case t of None \<Rightarrow> True | Some x \<Rightarrow> \<exists>s. x = PStr s"
  shows "raw_inv (produce self v t) \<and> level_gap (produce self v t) = level_gap self \<and>
         bracket_count (produce self v t) = bracket_count self"
  using assms
  by (auto simp: produce_def raw_inv_def level_gap_def queue_ok_def balance_def
      split: option.splits)

lemma eof_inv:
  assumes "raw_inv self"
  shows "case eof self of
           Inr self' \<Rightarrow> raw_inv self' \<and> level_gap self' = level_gap self
         | Inl (ex, self') \<Rightarrow> raw_inv self' \<and> level_gap self' = level_gap self \<and> lexical ex"
proof (cases "bracket_count self = 0")
  case True
  let ?q = "produce self (PStr ''NEWLINE'') (Some (PStr [newline]))"
  from produce_plain [OF assms, of "PStr ''NEWLINE''" "Some (PStr [newline])"]
  have qi: "raw_inv ?q" and qg: "level_gap ?q = level_gap self" by simp_all
  show ?thesis
  proof (cases "outdent_to ?q 0")
    case (Inl e)
    with outdent_to_inv [OF qi, of 0] qg True show ?thesis
      by (auto simp: eof_def)
  next
    case (Inr self')
    with outdent_to_inv [OF qi, of 0] qg have i: "raw_inv self'" and g: "level_gap self' = level_gap self"
      by simp_all
    from produce_plain [OF i, of "PStr ''EOF''" None] g Inr True show ?thesis
      by (simp add: eof_def)
  qed
next
  case False
  from produce_plain [OF assms, of "PStr ''EOF''" None] False show ?thesis
    by (simp add: eof_def)
qed

lemma read_step_inv:
  assumes "raw_inv self"
  shows "case read_step self of
           Inr self' \<Rightarrow> raw_inv self' \<and> level_gap self' = level_gap self
         | Inl (ex, self') \<Rightarrow> raw_inv self' \<and> level_gap self' = level_gap self \<and> lexical ex"
proof (cases "scan_a_token self")
  case (Inl e)
  obtain ex self1 where e: "e = (ex, self1)" by (cases e)
  from scan_a_token_Inl [OF Inl [unfolded e]] Inl e assms show ?thesis
    by (simp add: read_step_def raw_inv_def level_gap_def)
next
  case (Inr res)
  obtain tx act self1 where res: "res = (tx, act, self1)" by (cases res)
  show ?thesis
  proof (cases act)
    case None
    from scan_a_token_None [OF Inr [unfolded res None]]
    have s1: "indents self1 = indents self" "queue self1 = queue self"
      "state_name self1 = state_name self" "bracket_count self1 = bracket_count self"
      by simp_all
    let ?p = "produce (self1\<lparr>text := tx\<rparr>) PNone None"
    have si: "raw_inv (self1\<lparr>text := tx\<rparr>)"
      and sg: "level_gap (self1\<lparr>text := tx\<rparr>) = level_gap self"
      using assms s1 by (simp_all add: raw_inv_def level_gap_def)
    from produce_plain [OF si, of PNone None] sg
    have pi: "raw_inv ?p" and pg: "level_gap ?p = level_gap self" by simp_all
    from eof_inv [OF pi] pg
    have "case eof ?p of
            Inr self' \<Rightarrow> raw_inv self' \<and> level_gap self' = level_gap self
          | Inl (ex, self') \<Rightarrow> raw_inv self' \<and> level_gap self' = level_gap self \<and> lexical ex"
      by (auto split: sum.splits)
    with Inr res None show ?thesis by (simp add: read_step_def)
  next
    case (Some a)
    from scan_a_token_Some [OF Inr [unfolded res Some]] obtain r n where
      r: "(r, a) \<in> set (lexicon (state_name self))" and
      m: "match_len r (symbols self) = Some n" and
      tx: "tx = sym_text (take n (symbols self))" and
      s1: "indents self1 = indents self" "queue self1 = queue self"
        "state_name self1 = state_name self" "bracket_count self1 = bracket_count self"
      by blast
    let ?s = "self1\<lparr>text := tx\<rparr>"
    have si: "raw_inv ?s" and sg: "level_gap ?s = level_gap self"
      using assms s1 by (simp_all add: raw_inv_def level_gap_def)
    from match_len_sound [OF m] have w: "take n (symbols self) \<in> lang r" by simp
    show ?thesis
    proof (cases "state_name self = ''indent''")
      case True
      with r have a: "a = Call handle_indentation" by (simp add: lexicon_def lexicon_indent_def)
      from handle_indentation_inv [OF si, of tx] sg Inr res Some a show ?thesis
        by (auto simp: read_step_def split: sum.splits)
    next
      case False
      with r have rd: "(r, a) \<in> set lexicon_default" by (simp add: lexicon_def)
      from False s1 have ns: "state_name ?s \<noteq> ''indent''" by simp
      have "text ?s = sym_text (take n (symbols self))" using tx by simp
      from perform_default_inv [OF si ns rd w this] sg tx Inr res Some show ?thesis
        by (auto simp: read_step_def)
    qed
  qed
qed

lemma read_loop_inv:
  "raw_inv self \<Longrightarrow>
     (case read_loop self of
        Inr self' \<Rightarrow> raw_inv self' \<and> level_gap self' = level_gap self \<and> queue self' \<noteq> []
      | Inl (ex, self') \<Rightarrow> raw_inv self' \<and> level_gap self' = level_gap self \<and> lexical ex)"
proof (induction self rule: read_loop.induct)
  case (1 self)
  from read_step_inv [OF "1.prems"] show ?case
  proof (cases "read_step self")
    case (Inl e)
    with read_step_inv [OF "1.prems"] show ?thesis
      by (subst read_loop.simps) (auto split: prod.splits)
  next
    case (Inr self')
    with read_step_inv [OF "1.prems"] have i: "raw_inv self'" and g: "level_gap self' = level_gap self"
      by simp_all
    show ?thesis
    proof (cases "queue self' = []")
      case True
      from "1.IH" [OF Inr True i] g Inr True show ?thesis
        by (subst read_loop.simps) (auto split: sum.splits)
    next
      case False
      with i g Inr show ?thesis by (subst read_loop.simps) simp
    qed
  qed
qed

lemma queue_ok_Cons: "queue_ok (x # q) \<longleftrightarrow> queue_ok [x] \<and> queue_ok q"
  by (auto simp: queue_ok_def)

lemma balance_Cons: "balance (x # q) = balance [x] + balance q"
  using balance_append [of "[x]" q] by simp

lemma raw_read_inv:
  assumes "raw_inv self"
  shows "case raw_read self of
           Inr (tok, self') \<Rightarrow> raw_inv self' \<and> queue_ok [tok] \<and>
             level_gap self' = level_gap self + balance [tok]
         | Inl (ex, self') \<Rightarrow> raw_inv self' \<and> level_gap self' = level_gap self \<and> lexical ex"
proof -
  let ?r = "if queue self = [] then read_loop self else Inr self"
  have r: "case ?r of
          Inr self' \<Rightarrow> raw_inv self' \<and> level_gap self' = level_gap self \<and> queue self' \<noteq> []
        | Inl (ex, self') \<Rightarrow> raw_inv self' \<and> level_gap self' = level_gap self \<and> lexical ex"
    using read_loop_inv [OF assms] assms by simp
  show ?thesis
  proof (cases ?r)
    case (Inl e)
    with r show ?thesis by (simp add: raw_read_def split: prod.splits)
  next
    case (Inr self')
    with r have i: "raw_inv self'" and g: "level_gap self' = level_gap self"
      and ne: "queue self' \<noteq> []" by simp_all
    from ne obtain tok rest where q: "queue self' = tok # rest" by (cases "queue self'") auto
    from i q have 1: "raw_inv (self'\<lparr>queue := rest\<rparr>)" and 2: "queue_ok [tok]"
      using queue_ok_Cons [of tok rest] by (simp_all add: raw_inv_def)
    from g q have 3: "level_gap (self'\<lparr>queue := rest\<rparr>) = level_gap self + balance [tok]"
      using balance_Cons [of tok rest] by (simp add: level_gap_def)
    from Inr q 1 2 3 show ?thesis by (simp add: raw_read_def)
  qed
qed

section \<open>The indentation stack\<close>

lemma raw_inv_init: "raw_inv (RawScanner_init strm nm eo)"
  by (simp add: RawScanner_init_def raw_inv_def stack_ok_def queue_ok_def begin_state_def Let_def)

lemma level_gap_init: "level_gap (RawScanner_init strm nm eo) = 0"
  by (simp add: RawScanner_init_def level_gap_def begin_state_def Let_def)

lemma raw_reads_inv:
  "raw_inv self \<Longrightarrow>
     (case raw_reads n self of
        (ts, self') \<Rightarrow> raw_inv self' \<and> level_gap self' = level_gap self + balance ts)"
proof (induction n arbitrary: self)
  case 0
  then show ?case by simp
next
  case (Suc n)
  show ?case
  proof (cases "raw_read self")
    case (Inl e)
    with raw_read_inv [OF Suc.prems] show ?thesis by (auto split: prod.splits)
  next
    case (Inr res)
    obtain tok self1 where res: "res = (tok, self1)" by (cases res)
    from raw_read_inv [OF Suc.prems] Inr res
    have i: "raw_inv self1" and g: "level_gap self1 = level_gap self + balance [tok]"
      by simp_all
    obtain ts self2 where r: "raw_reads n self1 = (ts, self2)" by (cases "raw_reads n self1")
    from Suc.IH [OF i] r have "raw_inv self2" and "level_gap self2 = level_gap self1 + balance ts"
      by simp_all
    with g Inr res r balance_Cons [of tok ts] show ?thesis by simp
  qed
qed

text \<open>
  Claim C2. At every point of a scan in file mode (after any number of reads of the
  raw lexer, and where a read raised), the indentation stack is not empty, has 0 at
  its bottom and ascends strictly from bottom to top, and the number of \<^verbatim>\<open>INDENT\<close>
  tokens emitted so far minus the number of \<^verbatim>\<open>OUTDENT\<close> tokens emitted so far is the
  depth of the stack minus 1. The tokens emitted so far are those already read,
  \<open>ts\<close>, and those produced and still queued.
\<close>

theorem indentation_stack_invariant:
  "case raw_reads n (RawScanner_init strm nm False) of
     (ts, self) \<Rightarrow>
       indents self \<noteq> [] \<and> hd (indents self) = 0 \<and> sorted_wrt (<) (indents self) \<and>
       int (length (filter (\<lambda>(v, t). v = PStr ''INDENT'') (ts @ queue self)))
         - int (length (filter (\<lambda>(v, t). v = PStr ''OUTDENT'') (ts @ queue self)))
       = int (length (indents self)) - 1"
proof -
  obtain ts self where r: "raw_reads n (RawScanner_init strm nm False) = (ts, self)"
    by (cases "raw_reads n (RawScanner_init strm nm False)")
  from raw_reads_inv [OF raw_inv_init, where n = n and strm1 = strm and nm1 = nm and eo1 = False] r
  have i: "raw_inv self" and g: "level_gap self = balance ts"
    by (simp_all add: level_gap_init)
  from g have "balance (ts @ queue self) = int (length (indents self)) - 1"
    by (simp add: level_gap_def)
  with i r show ?thesis
    by (simp add: raw_inv_def stack_ok_def balance_def)
qed






section \<open>Newlines inside and outside brackets\<close>

lemma conc_empty [simp]: "conc {} B = {}" "conc A {} = {}"
  by (simp_all add: conc_def)

lemma conc_eps [simp]: "conc {[]} B = B" "conc A {[]} = A"
  by (simp_all add: conc_def)

lemma longest_dead: "lang r = {} \<Longrightarrow> longest r w k best = best"
  by (rule longest_none) simp


lemma lang_Any_Nil [simp]: "lang (Any []) = {}"
  by simp












section \<open>The lookahead scanner after a lexical error\<close>

text \<open>
  What holds of every scanner: the invariant of its raw lexer, and a peeked token of
  type \<^verbatim>\<open>ERROR\<close> comes from an \<^verbatim>\<open>except\<close> clause of \<^verbatim>\<open>peek\<close>, which sets \<^verbatim>\<open>force_eof\<close>
  and gives the token a lexical diagnostic as its value.
\<close>

definition lexical_diag :: "pyval \<Rightarrow> bool" where
  "lexical_diag v =
     (\<exists>loc. v = PDiag (InvalidCharacter loc) \<or> v = PDiag (InvalidIndentation loc))"

definition scanner_inv :: "Scanner \<Rightarrow> bool" where
  "scanner_inv self =
     (raw_inv (raw_scanner self) \<and>
      (\<forall>t. peeked self = Some t \<and> type t = PStr ''ERROR'' \<longrightarrow>
         force_eof self \<and> lexical_diag (value t)))"

lemma peek_except_lexical:
  assumes "lexical ex"
  shows "\<exists>t. peek_except ex self =
           (Inr t, self\<lparr>peeked := Some t, force_eof := True, peeking := False\<rparr>) \<and>
         type t = PStr ''ERROR'' \<and> lexical_diag (value t) \<and> source_range t = None"
  using assms by (cases ex) (simp_all add: peek_except_def Token_def lexical_diag_def Let_def)

definition peek_post :: "Scanner \<Rightarrow> token \<Rightarrow> Scanner \<Rightarrow> bool" where
  "peek_post self t self' =
     (raw_inv (raw_scanner self') \<and> peeked self' = Some t \<and>
      last_token self' = last_token self \<and>
      (type t = PStr ''ERROR'' \<longrightarrow> force_eof self' \<and> lexical_diag (value t)) \<and>
      (type t \<noteq> PStr ''ERROR'' \<longrightarrow> force_eof self' = force_eof self))"

lemma peek_except_post:
  assumes "lexical ex" and "raw_inv rs"
  shows "\<exists>t self'. peek_except ex (self\<lparr>raw_scanner := rs\<rparr>) = (Inr t, self') \<and>
           peek_post self t self'"
proof -
  from peek_except_lexical [OF assms(1), of "self\<lparr>raw_scanner := rs\<rparr>"] obtain t where
    t: "peek_except ex (self\<lparr>raw_scanner := rs\<rparr>) =
          (Inr t, self\<lparr>raw_scanner := rs, peeked := Some t, force_eof := True, peeking := False\<rparr>)"
      "type t = PStr ''ERROR''" "lexical_diag (value t)"
    by auto
  have "peek_post self t
          (self\<lparr>raw_scanner := rs, peeked := Some t, force_eof := True, peeking := False\<rparr>)"
    using t(2,3) assms(2) by (simp add: peek_post_def)
  with t(1) show ?thesis by blast
qed

lemma peek_token_post:
  assumes "queue_ok [tok]" and "raw_inv rs"
  shows "\<exists>t self'.
           (let self1 = self\<lparr>raw_scanner := rs\<rparr>;
                raw_position = position rs
            in case (if fst tok \<in> {PStr ''NEWLINE'', PStr ''INDENT'', PStr ''OUTDENT''}
                     then Inr 0 else py_len (snd tok)) of
                 Inl ex \<Rightarrow> peek_except ex self1
               | Inr token_length \<Rightarrow>
                   (let source_range =
                          SourceRange
                            (SourceLocation (fst raw_position) (fst (snd raw_position))
                               (snd (snd raw_position) + 1))
                            (SourceLocation (fst raw_position) (fst (snd raw_position))
                               (snd (snd raw_position) + token_length + 1));
                        t = Token (fst tok) (snd tok) (Some source_range)
                    in (Inr t, self1\<lparr>peeked := Some t, peeking := False\<rparr>))) = (Inr t, self') \<and>
           peek_post self t self'"
proof -
  obtain v x where tok: "tok = (v, x)" by (cases tok)
  from assms(1) tok have v: "v \<noteq> PStr ''ERROR''" and x: "v = PStr ''INDENT'' \<or> (\<exists>s. x = PStr s)"
    by (simp_all add: queue_ok_def)
  from x have "\<exists>n.
    (if v \<in> {PStr ''NEWLINE'', PStr ''INDENT'', PStr ''OUTDENT''} then Inr 0 else py_len x) = Inr n"
    by (auto simp: py_len_def)
  then obtain n where n:
    "(if v \<in> {PStr ''NEWLINE'', PStr ''INDENT'', PStr ''OUTDENT''} then Inr 0 else py_len x) = Inr n"
    by blast
  show ?thesis
    unfolding Let_def tok fst_conv snd_conv n
    using v assms(2) by (simp add: Token_def peek_post_def)
qed

lemma peek_try_total:
  assumes "raw_inv (raw_scanner self)"
  shows "\<exists>t self'. peek_try self = (Inr t, self') \<and> peek_post self t self'"
proof (cases "raw_read (raw_scanner self)")
  case (Inl e)
  obtain ex rs where e: "e = (ex, rs)" by (cases e)
  from raw_read_inv [OF assms] Inl e have "lexical ex" "raw_inv rs" by simp_all
  from peek_except_post [OF this] Inl e show ?thesis by (simp add: peek_try_def)
next
  case (Inr res)
  obtain tok0 rs0 where res: "res = (tok0, rs0)" by (cases res)
  from raw_read_inv [OF assms] Inr res have q0: "queue_ok [tok0]" and i0: "raw_inv rs0"
    by simp_all
  show ?thesis
  proof (cases "fst tok0 = PNone")
    case False
    with peek_token_post [OF q0 i0, of self] Inr res show ?thesis by (simp add: peek_try_def)
  next
    case True
    show ?thesis
    proof (cases "raw_read rs0")
      case (Inl e)
      obtain ex rs where e: "e = (ex, rs)" by (cases e)
      from raw_read_inv [OF i0] Inl e have "lexical ex" "raw_inv rs" by simp_all
      from peek_except_post [OF this, of self] Inl e Inr res True show ?thesis
        by (simp add: peek_try_def)
    next
      case Inr2: (Inr res2)
      obtain tok rs where res2: "res2 = (tok, rs)" by (cases res2)
      from raw_read_inv [OF i0] Inr2 res2 have q: "queue_ok [tok]" and i: "raw_inv rs"
        by simp_all
      from peek_token_post [OF q i, of self] Inr2 res2 Inr res True show ?thesis
        by (simp add: peek_try_def)
    qed
  qed
qed


lemma peek_cached: "peeked self = Some t \<Longrightarrow> peek self = (Inr t, self)"
  by (simp add: peek_def)

lemma peek_forced:
  "peeked self = None \<Longrightarrow> force_eof self \<Longrightarrow>
     peek self =
       (Inr (Token (PStr ''EOF'') PNone (source_range (last_token self))),
        self\<lparr>peeking := True,
             peeked := Some (Token (PStr ''EOF'') PNone (source_range (last_token self)))\<rparr>)"
  by (simp add: peek_def Let_def)

lemma peek_total:
  assumes "scanner_inv self"
  shows "\<exists>t self'. peek self = (Inr t, self') \<and> scanner_inv self' \<and> peeked self' = Some t \<and>
           last_token self' = last_token self \<and> (force_eof self \<longrightarrow> force_eof self')"
proof (cases "peeked self")
  case (Some t)
  with assms show ?thesis by (simp add: peek_cached)
next
  case None
  show ?thesis
  proof (cases "force_eof self")
    case True
    with None assms show ?thesis
      by (simp add: peek_forced scanner_inv_def Token_def)
  next
    case False
    let ?s = "self\<lparr>peeking := True\<rparr>"
    from assms have "raw_inv (raw_scanner ?s)" by (simp add: scanner_inv_def)
    from peek_try_total [OF this] obtain t self' where
      p: "peek_try ?s = (Inr t, self')" and q: "peek_post ?s t self'" by blast
    from q have "scanner_inv self'" "peeked self' = Some t" "last_token self' = last_token self"
      by (auto simp: peek_post_def scanner_inv_def)
    with p None False show ?thesis by (simp add: peek_def Let_def)
  qed
qed

lemma read_total:
  assumes "scanner_inv self"
  shows "\<exists>t self'. peek self = (Inr t, self') \<and> peeked self' = Some t \<and>
           read self = (Inr t, self'\<lparr>peeked := None, last_token := t\<rparr>) \<and>
           scanner_inv (self'\<lparr>peeked := None, last_token := t\<rparr>) \<and>
           (force_eof self \<longrightarrow> force_eof self')"
proof -
  from peek_total [OF assms] obtain t self' where
    p: "peek self = (Inr t, self')" "scanner_inv self'" "peeked self' = Some t"
       "force_eof self \<longrightarrow> force_eof self'" by blast
  from p(2) have "scanner_inv (self'\<lparr>peeked := None, last_token := t\<rparr>)"
    by (simp add: scanner_inv_def)
  with p show ?thesis by (simp add: read_def)
qed

lemma scanner_inv_init: "scanner_inv (Scanner_init strm nm eo)"
  by (simp add: scanner_inv_def Scanner_init_def raw_inv_init)

lemma do_call_inv: "scanner_inv self \<Longrightarrow> scanner_inv (snd (do_call c self))"
proof (cases c)
  case Peek
  assume "scanner_inv self"
  from peek_total [OF this] Peek show ?thesis by auto
next
  case Read
  assume "scanner_inv self"
  from read_total [OF this] Read show ?thesis by auto
qed

lemma run_calls_inv: "scanner_inv self \<Longrightarrow> scanner_inv (snd (run_calls cs self))"
proof (induction cs arbitrary: self)
  case Nil
  then show ?case by simp
next
  case (Cons c cs)
  from Cons.IH [OF do_call_inv [OF Cons.prems, of c]] show ?case
    by (auto split: prod.splits)
qed

definition at_eof :: "Scanner \<Rightarrow> bool" where
  "at_eof self =
     (force_eof self \<and> (\<forall>t. peeked self = Some t \<longrightarrow> type t = PStr ''EOF''))"

lemma do_call_at_eof:
  assumes "at_eof self"
  shows "\<exists>t self'. do_call c self = (Inr t, self') \<and> type t = PStr ''EOF'' \<and> at_eof self'"
proof -
  have p: "\<exists>t self'. peek self = (Inr t, self') \<and> type t = PStr ''EOF'' \<and> at_eof self' \<and>
             force_eof self'"
  proof (cases "peeked self")
    case None
    with assms show ?thesis by (simp add: at_eof_def peek_forced Token_def)
  next
    case (Some t)
    with assms show ?thesis by (simp add: at_eof_def peek_cached)
  qed
  show ?thesis
  proof (cases c)
    case Peek
    with p show ?thesis by auto
  next
    case Read
    from p obtain t self' where "peek self = (Inr t, self')" "type t = PStr ''EOF''"
      "force_eof self'" by blast
    with Read show ?thesis by (simp add: read_def at_eof_def)
  qed
qed

lemma run_calls_at_eof:
  "at_eof self \<Longrightarrow>
     \<forall>r \<in> set (fst (run_calls cs self)). \<exists>tok. r = Inr tok \<and> type tok = PStr ''EOF''"
proof (induction cs arbitrary: self)
  case Nil
  then show ?case by simp
next
  case (Cons c cs)
  from do_call_at_eof [OF Cons.prems, of c] obtain t self' where
    d: "do_call c self = (Inr t, self')" "type t = PStr ''EOF''" "at_eof self'" by blast
  from Cons.IH [OF d(3)] d(1,2) show ?case by (auto split: prod.splits)
qed

text \<open>
  Claim C1, amended. Once \<^verbatim>\<open>peek()\<close> has returned a token of type \<^verbatim>\<open>ERROR\<close>, that
  token stays the peeked token: \<^verbatim>\<open>peek()\<close> returns it again and the next \<^verbatim>\<open>read()\<close>
  returns and consumes it; after that \<^verbatim>\<open>read()\<close>, every \<^verbatim>\<open>peek()\<close> and \<^verbatim>\<open>read()\<close> on the
  scanner returns a token of type \<^verbatim>\<open>EOF\<close>.
\<close>

theorem post_error_stability:
  assumes "self = snd (run_calls cs (Scanner_init strm nm eo))"
    and "peek self = (Inr t, self1)" and "type t = PStr ''ERROR''"
  shows "peek self1 = (Inr t, self1) \<and>
         read self1 = (Inr t, self1\<lparr>peeked := None, last_token := t\<rparr>) \<and>
         (\<forall>cs'. \<forall>r \<in> set (fst (run_calls cs' (self1\<lparr>peeked := None, last_token := t\<rparr>))).
            \<exists>tok. r = Inr tok \<and> type tok = PStr ''EOF'')"
proof -
  have "scanner_inv self" unfolding assms(1) by (rule run_calls_inv [OF scanner_inv_init])
  from peek_total [OF this] assms(2) have i: "scanner_inv self1" and p: "peeked self1 = Some t"
    by auto
  from i p assms(3) have f: "force_eof self1" by (simp add: scanner_inv_def)
  have 1: "peek self1 = (Inr t, self1)" using p by (rule peek_cached)
  have 2: "read self1 = (Inr t, self1\<lparr>peeked := None, last_token := t\<rparr>)"
    using 1 by (simp add: read_def)
  have "at_eof (self1\<lparr>peeked := None, last_token := t\<rparr>)" using f by (simp add: at_eof_def)
  from run_calls_at_eof [OF this] 1 2 show ?thesis by blast
qed

section \<open>Concrete scans\<close>





text \<open>
  Claim C1 as stated fails: on the input \<^verbatim>\<open>"@"\<close> the first \<^verbatim>\<open>peek()\<close> returns an \<^verbatim>\<open>ERROR\<close>
  token, and the \<^verbatim>\<open>peek()\<close> and the \<^verbatim>\<open>read()\<close> that follow return that \<^verbatim>\<open>ERROR\<close> token
  again, not \<^verbatim>\<open>EOF\<close>; only the calls after that \<^verbatim>\<open>read()\<close> return \<^verbatim>\<open>EOF\<close>.
\<close>

theorem post_error_peek_counterexample:
  "map (map_sum id type)
     (fst (run_calls [Peek, Peek, Read, Peek, Read] (Scanner_init ''@'' None False))) =
   [Inr (PStr ''ERROR''), Inr (PStr ''ERROR''), Inr (PStr ''ERROR''),
    Inr (PStr ''EOF''), Inr (PStr ''EOF'')]"
  by code_simp

text \<open>The amended claim C1 on the input \<^verbatim>\<open>"@"\<close>.\<close>

theorem post_error_stability_witness:
  "case peek (Scanner_init ''@'' None False) of
     (Inr t, self1) \<Rightarrow>
        type t = PStr ''ERROR'' \<and> peek self1 = (Inr t, self1) \<and>
        read self1 = (Inr t, self1\<lparr>peeked := None, last_token := t\<rparr>) \<and>
        (\<forall>r \<in> set (fst (run_calls [Peek, Read, Peek]
                            (self1\<lparr>peeked := None, last_token := t\<rparr>))).
           \<exists>tok. r = Inr tok \<and> type tok = PStr ''EOF'')
   | (Inl ex, self1) \<Rightarrow> False"
proof -
  let ?s = "Scanner_init ''@'' None False"
  have e: "case peek ?s of (Inr t, s) \<Rightarrow> type t = PStr ''ERROR'' | (Inl ex, s) \<Rightarrow> False"
    by code_simp
  obtain r self1 where p: "peek ?s = (r, self1)" by (cases "peek ?s")
  with e obtain t where r: "r = Inr t" and ty: "type t = PStr ''ERROR''"
    by (cases r) auto
  have s: "?s = snd (run_calls [] (Scanner_init ''@'' None False))" by simp
  note st = post_error_stability [OF s p [unfolded r] ty]
  from st have a: "peek self1 = (Inr t, self1)"
    and b: "read self1 = (Inr t, self1\<lparr>peeked := None, last_token := t\<rparr>)"
    and c: "\<forall>r \<in> set (fst (run_calls [Peek, Read, Peek]
                            (self1\<lparr>peeked := None, last_token := t\<rparr>))).
           \<exists>tok. r = Inr tok \<and> type tok = PStr ''EOF''"
    by blast+
  show ?thesis unfolding p r using ty a b c by (simp del: run_calls.simps)
qed

text \<open>
  Claim C3 on the input \<^verbatim>\<open>"a @"\<close>. The last token produced before the error is the
  \<^verbatim>\<open>IDENT\<close> at line 1, columns 1 to 2. \<^verbatim>\<open>read()\<close> makes the \<^verbatim>\<open>ERROR\<close> token, which has no
  range, the last token, and every synthetic \<^verbatim>\<open>EOF\<close> token takes its range from the
  last token: its \<^verbatim>\<open>source_range\<close> is \<^verbatim>\<open>None\<close>, not the range of the \<^verbatim>\<open>IDENT\<close>.
\<close>

theorem synthetic_eof_has_no_range:
  "case run_calls [Read, Peek, Read, Peek, Read, Peek] (Scanner_init ''a @'' None False) of
     (rs, self) \<Rightarrow>
       map (map_sum id (\<lambda>t. (type t, source_range t))) rs =
         [Inr (PStr ''IDENT'',
               Some (SourceRange (SourceLocation None 1 1) (SourceLocation None 1 2))),
          Inr (PStr ''ERROR'', None), Inr (PStr ''ERROR'', None),
          Inr (PStr ''EOF'', None), Inr (PStr ''EOF'', None), Inr (PStr ''EOF'', None)] \<and>
       force_eof self"
  by code_simp

text \<open>
  Claim C8 as stated fails: the first five tokens read from \<^verbatim>\<open>"a = 1\n"\<close> in file mode
  are not \<^verbatim>\<open>IDENT\<close>, \<^verbatim>\<open>=\<close>, \<^verbatim>\<open>NUMBER\<close>, \<^verbatim>\<open>NEWLINE\<close>, \<^verbatim>\<open>EOF\<close>.
\<close>

theorem tokens_of_assignment_line_counterexample:
  "map (map_sum id (\<lambda>t. (type t, value t)))
     (fst (run_calls [Read, Read, Read, Read, Read] (Scanner_init (''a = 1'' @ [newline]) None False)))
   \<noteq> [Inr (PStr ''IDENT'', PStr ''a''), Inr (PStr ''='', PStr ''=''),
       Inr (PStr ''NUMBER'', PStr ''1''), Inr (PStr ''NEWLINE'', PStr [newline]),
       Inr (PStr ''EOF'', PStr [])]"
  by code_simp

text \<open>
  Claim C8, amended. For the input \<^verbatim>\<open>"a = 1\n"\<close> scanned in file mode, the tokens read up
  to the first \<^verbatim>\<open>EOF\<close> are \<^verbatim>\<open>IDENT\<close> with value \<^verbatim>\<open>a\<close>, the punctuation token \<^verbatim>\<open>=\<close>,
  \<^verbatim>\<open>NUMBER\<close> with value \<^verbatim>\<open>1\<close>, a \<^verbatim>\<open>NEWLINE\<close> for the line break, the \<^verbatim>\<open>NEWLINE\<close> that
  \<^verbatim>\<open>eof()\<close> always produces outside brackets, then \<^verbatim>\<open>EOF\<close>; there is no \<^verbatim>\<open>INDENT\<close> and no
  \<^verbatim>\<open>OUTDENT\<close>.
\<close>

theorem tokens_of_assignment_line:
  "map (map_sum id (\<lambda>t. (type t, value t)))
     (fst (run_calls [Read, Read, Read, Read, Read, Read]
        (Scanner_init (''a = 1'' @ [newline]) None False))) =
   [Inr (PStr ''IDENT'', PStr ''a''), Inr (PStr ''='', PStr ''=''),
    Inr (PStr ''NUMBER'', PStr ''1''), Inr (PStr ''NEWLINE'', PStr [newline]),
    Inr (PStr ''NEWLINE'', PStr [newline]), Inr (PStr ''EOF'', PStr [])]"
  by code_simp


section \<open>The assertions \<^verbatim>\<open>require_*\<close>\<close>

text \<open>
  What a \<^verbatim>\<open>require_*\<close> method does, given the predicate it asserts and the token it
  wants: the peeked token \<open>t\<close> is consumed and returned, as by \<^verbatim>\<open>read()\<close>, when it
  satisfies the predicate; when it does not and is an \<^verbatim>\<open>ERROR\<close> token, its lexical
  diagnostic is raised; when it does not and is another token, \<^verbatim>\<open>UnexpectedToken\<close> is
  raised with the wanted token and \<open>t\<close>. A raise leaves the token peeked.
\<close>

definition require_contract ::
  "(token \<Rightarrow> bool) \<Rightarrow> token \<Rightarrow> Scanner \<Rightarrow> (py_exn + token) \<times> Scanner \<Rightarrow> bool" where
  "require_contract satisfies wanted self outcome =
     (\<exists>t self1. peek self = (Inr t, self1) \<and>
        (satisfies t \<longrightarrow>
           outcome = read self \<and>
           outcome = (Inr t, self1\<lparr>peeked := None, last_token := t\<rparr>)) \<and>
        (\<not> satisfies t \<and> type t = PStr ''ERROR'' \<longrightarrow>
           (\<exists>loc. (value t = PDiag (InvalidCharacter loc) \<and>
                    outcome = (Inl (Raised (InvalidCharacter loc)), self1)) \<or>
                  (value t = PDiag (InvalidIndentation loc) \<and>
                    outcome = (Inl (Raised (InvalidIndentation loc)), self1)))) \<and>
        (\<not> satisfies t \<and> type t \<noteq> PStr ''ERROR'' \<longrightarrow>
           outcome = (Inl (UnexpectedToken wanted t), self1)))"

lemma require_meets_contract:
  assumes "scanner_inv self"
    and "\<And>t self1. peek self = (Inr t, self1) \<Longrightarrow> next_is self = (Inr (satisfies t), self1)"
  shows "require_contract satisfies wanted self (require next_is wanted self)"
proof -
  from peek_total [OF assms(1)] obtain t self1 where
    p: "peek self = (Inr t, self1)" and i: "scanner_inv self1" and c: "peeked self1 = Some t"
    by blast
  have p1: "peek self1 = (Inr t, self1)" using c by (rule peek_cached)
  have n: "next_is self = (Inr (satisfies t), self1)" using p by (rule assms(2))
  have r: "read self = (Inr t, self1\<lparr>peeked := None, last_token := t\<rparr>)"
    using p by (simp add: read_def)
  have r1: "read self1 = (Inr t, self1\<lparr>peeked := None, last_token := t\<rparr>)"
    using p1 by (simp add: read_def)
  have e: "type t = PStr ''ERROR'' \<Longrightarrow> lexical_diag (value t)"
    using i c by (simp add: scanner_inv_def)
  have "satisfies t \<Longrightarrow> require next_is wanted self = (Inr t, self1\<lparr>peeked := None, last_token := t\<rparr>)"
    using n r1 by (simp add: require_def)
  moreover have "\<not> satisfies t \<Longrightarrow> type t \<noteq> PStr ''ERROR'' \<Longrightarrow>
      require next_is wanted self = (Inl (UnexpectedToken wanted t), self1)"
    using n p1
    by (simp add: require_def raise_if_next_is_error_def next_is_error_def next_is_type_def)
  moreover have "\<not> satisfies t \<Longrightarrow> type t = PStr ''ERROR'' \<Longrightarrow>
      require next_is wanted self = (Inl (raise_value (value t)), self1)"
    using n p1
    by (simp add: require_def raise_if_next_is_error_def next_is_error_def next_is_type_def)
  ultimately show ?thesis
    using p r e unfolding require_contract_def lexical_diag_def
    by (intro exI [of _ t] exI [of _ self1]) (auto simp: raise_value_def)
qed

text \<open>
  Claim C7. On every scanner, each of \<^verbatim>\<open>require_punct\<close>, \<^verbatim>\<open>require_keyword\<close>,
  \<^verbatim>\<open>require_indent\<close>, \<^verbatim>\<open>require_outdent\<close>, \<^verbatim>\<open>require_newline\<close> and \<^verbatim>\<open>require_eof\<close>: if the
  peeked token fails the predicate and is an \<^verbatim>\<open>ERROR\<close> token, raises the lexical
  diagnostic the token carries (\<^verbatim>\<open>InvalidCharacter\<close> or \<^verbatim>\<open>InvalidIndentation\<close>), not
  \<^verbatim>\<open>UnexpectedToken\<close>; if it fails the predicate and is not an \<^verbatim>\<open>ERROR\<close> token, raises
  \<^verbatim>\<open>UnexpectedToken\<close> with the wanted and the observed token; if it satisfies the
  predicate, consumes and returns it without raising.
\<close>

theorem require_raises_lexical_error_first:
  assumes "self = snd (run_calls cs (Scanner_init strm nm eo))"
  shows "require_contract (\<lambda>t. type t = PStr symbol \<and> value t = PStr symbol)
           (Token (PStr ''PUNCT'') (PStr symbol) None) self (require_punct self symbol) \<and>
         require_contract (\<lambda>t. type t = PStr ''IDENT'' \<and> value t = PStr kw)
           (Token (PStr ''IDENT'') (PStr kw) None) self (require_keyword self kw) \<and>
         require_contract (\<lambda>t. type t = PStr ''INDENT'')
           (Token (PStr ''INDENT'') (PInt 4) None) self (require_indent self) \<and>
         require_contract (\<lambda>t. type t = PStr ''OUTDENT'')
           (Token (PStr ''OUTDENT'') (PInt 4) None) self (require_outdent self) \<and>
         require_contract (\<lambda>t. type t = PStr ''NEWLINE'')
           (Token (PStr ''NEWLINE'') (PStr [newline]) None) self (require_newline self) \<and>
         require_contract (\<lambda>t. type t = PStr ''EOF'')
           (Token (PStr ''EOF'') PNone None) self (require_eof self)"
proof -
  have i: "scanner_inv self" unfolding assms by (rule run_calls_inv [OF scanner_inv_init])
  show ?thesis
    unfolding require_punct_def require_keyword_def require_indent_def require_outdent_def
      require_newline_def require_eof_def
    by (intro conjI require_meets_contract [OF i])
       (simp_all add: next_is_punct_def next_is_keyword_def next_is_indent_def
          next_is_outdent_def next_is_newline_def next_is_eof_def next_is_type_def)
qed

lemma require_contract_fst:
  assumes "require_contract satisfies wanted self outcome" and "fst (peek self) = Inr t"
  shows "(satisfies t \<longrightarrow> fst outcome = Inr t) \<and>
         (\<not> satisfies t \<and> type t = PStr ''ERROR'' \<longrightarrow>
            (\<forall>loc. value t = PDiag (InvalidCharacter loc) \<longrightarrow>
               fst outcome = Inl (Raised (InvalidCharacter loc)))) \<and>
         (\<not> satisfies t \<and> type t \<noteq> PStr ''ERROR'' \<longrightarrow>
            fst outcome = Inl (UnexpectedToken wanted t))"
proof -
  from assms(1) obtain t' self1 where p: "peek self = (Inr t', self1)"
    and c: "satisfies t' \<longrightarrow> outcome = (Inr t', self1\<lparr>peeked := None, last_token := t'\<rparr>)"
      "\<not> satisfies t' \<and> type t' = PStr ''ERROR'' \<longrightarrow>
           (\<exists>loc. (value t' = PDiag (InvalidCharacter loc) \<and>
                    outcome = (Inl (Raised (InvalidCharacter loc)), self1)) \<or>
                  (value t' = PDiag (InvalidIndentation loc) \<and>
                    outcome = (Inl (Raised (InvalidIndentation loc)), self1)))"
      "\<not> satisfies t' \<and> type t' \<noteq> PStr ''ERROR'' \<longrightarrow>
           outcome = (Inl (UnexpectedToken wanted t'), self1)"
    unfolding require_contract_def by blast
  from p assms(2) have "t' = t" by simp
  with c show ?thesis by auto
qed

text \<open>
  Claim C7 on the inputs \<^verbatim>\<open>"@"\<close> and \<^verbatim>\<open>"a"\<close>: the invalid character is reported by
  \<^verbatim>\<open>require_punct("=")\<close>; on \<^verbatim>\<open>"a"\<close> the same call reports the unexpected \<^verbatim>\<open>IDENT\<close>, and
  \<^verbatim>\<open>require_keyword("a")\<close> returns it.
\<close>

theorem require_raises_lexical_error_first_witness:
  "fst (require_punct (Scanner_init ''@'' None False) ''='') =
     Inl (Raised (InvalidCharacter (SourceLocation None 1 1))) \<and>
   fst (require_punct (Scanner_init ''a'' None False) ''='') =
     Inl (UnexpectedToken (Token (PStr ''PUNCT'') (PStr ''='') None)
            (Token (PStr ''IDENT'') (PStr ''a'')
               (Some (SourceRange (SourceLocation None 1 1) (SourceLocation None 1 2))))) \<and>
   fst (require_keyword (Scanner_init ''a'' None False) ''a'') =
     Inr (Token (PStr ''IDENT'') (PStr ''a'')
            (Some (SourceRange (SourceLocation None 1 1) (SourceLocation None 1 2))))"
proof -
  define s1 where "s1 = Scanner_init ''@'' None False"
  define s2 where "s2 = Scanner_init ''a'' None False"
  define e where "e = Token (PStr ''ERROR'') (PDiag (InvalidCharacter (SourceLocation None 1 1))) None"
  define a where "a = Token (PStr ''IDENT'') (PStr ''a'')
            (Some (SourceRange (SourceLocation None 1 1) (SourceLocation None 1 2)))"
  have r1: "s1 = snd (run_calls [] (Scanner_init ''@'' None False))" by (simp add: s1_def)
  have r2: "s2 = snd (run_calls [] (Scanner_init ''a'' None False))" by (simp add: s2_def)
  have p1: "fst (peek s1) = Inr e" unfolding s1_def e_def by code_simp
  have p2: "fst (peek s2) = Inr a" unfolding s2_def a_def by code_simp
  have te: "type e = PStr ''ERROR''" "value e = PDiag (InvalidCharacter (SourceLocation None 1 1))"
    by (simp_all add: e_def Token_def)
  have ta: "type a = PStr ''IDENT''" "value a = PStr ''a''"
    by (simp_all add: a_def Token_def)
  from require_raises_lexical_error_first [OF r1, of "''=''"]
  have "require_contract (\<lambda>t. type t = PStr ''='' \<and> value t = PStr ''='')
           (Token (PStr ''PUNCT'') (PStr ''='') None) s1 (require_punct s1 ''='')"
    by (rule conjunct1)
  from require_contract_fst [OF this p1] te
  have 1: "fst (require_punct s1 ''='') =
     Inl (Raised (InvalidCharacter (SourceLocation None 1 1)))"
    by simp
  from require_raises_lexical_error_first [OF r2, of "''=''"]
  have "require_contract (\<lambda>t. type t = PStr ''='' \<and> value t = PStr ''='')
           (Token (PStr ''PUNCT'') (PStr ''='') None) s2 (require_punct s2 ''='')"
    by (rule conjunct1)
  from require_contract_fst [OF this p2] ta
  have 2: "fst (require_punct s2 ''='') =
     Inl (UnexpectedToken (Token (PStr ''PUNCT'') (PStr ''='') None) a)"
    by simp
  from require_raises_lexical_error_first [OF r2, of _ "''a''"]
  have "require_contract (\<lambda>t. type t = PStr ''IDENT'' \<and> value t = PStr ''a'')
           (Token (PStr ''IDENT'') (PStr ''a'') None) s2 (require_keyword s2 ''a'')"
    by blast
  from require_contract_fst [OF this p2] ta
  have 3: "fst (require_keyword s2 ''a'') = Inr a" by simp
  from 1 2 3 show ?thesis unfolding s1_def s2_def a_def by blast
qed

section \<open>String literals\<close>

text \<open>
  The characters that the pattern \<^verbatim>\<open>string_literal\<close> of the source accepts after a
  backslash, \<^verbatim>\<open>Any("abcdefghijklmnopqrstuvwxyz\\\"")\<close>, and the bodies (the text between
  the quotes) that the pattern accepts: a run of units, each a backslash followed by
  one of these characters, or one character that is neither backslash nor quote.
\<close>

definition escape_chars :: string where
  "escape_chars = ''abcdefghijklmnopqrstuvwxyz'' @ [backslash, dquote]"

fun lexed_string_body :: "string \<Rightarrow> bool" where
  "lexed_string_body [] = True"
| "lexed_string_body [c] = (c \<noteq> backslash \<and> c \<noteq> dquote)"
| "lexed_string_body (c # d # ds) =
     (if c = backslash then d \<in> set escape_chars \<and> lexed_string_body ds
      else c \<noteq> dquote \<and> lexed_string_body (d # ds))"

text \<open>
  The string literals as the specification describes them: a unit is a backslash
  followed by exactly one arbitrary character, or one character that is neither
  backslash nor double quote; a literal is a double quote, a run of units and a
  closing double quote.
\<close>

fun spec_string_body :: "string \<Rightarrow> bool" where
  "spec_string_body [] = True"
| "spec_string_body [c] = (c \<noteq> backslash \<and> c \<noteq> dquote)"
| "spec_string_body (c # d # ds) =
     (if c = backslash then spec_string_body ds
      else c \<noteq> dquote \<and> spec_string_body (d # ds))"

definition spec_string_literal :: "string \<Rightarrow> bool" where
  "spec_string_literal s =
     (case s of
        [] \<Rightarrow> False
      | c # r \<Rightarrow> c = dquote \<and> r \<noteq> [] \<and> last r = dquote \<and> spec_string_body (butlast r))"

text \<open>The unit of the pattern of the source, named.\<close>

definition string_unit :: re where
  "string_unit =
     Alt (Seq (Str [backslash]) (Any escape_chars)) (AnyBut [backslash, dquote])"

lemma string_literal_unit: "string_literal = Seq (Seq (Str [dquote]) (Rep string_unit)) (Str [dquote])"
  by (simp add: string_literal_def string_unit_def escape_chars_def)

lemma lang_escape_or_plain:
  "lang (Alt (Seq (Str [a]) (Any cs)) (AnyBut ds)) =
     {[Ch a, Ch c] | c. c \<in> set cs} \<union> {[Ch c] | c. c \<notin> set ds}"
  by (auto simp: conc_def)

lemma lang_string_unit:
  "lang string_unit =
     {[Ch backslash, Ch c] | c. c \<in> set escape_chars} \<union> {[Ch c] | c. c \<noteq> backslash \<and> c \<noteq> dquote}"
  unfolding string_unit_def lang_escape_or_plain by auto

lemma lexed_not_dquote [simp]: "\<not> lexed_string_body (dquote # ds)"
  by (cases ds) simp_all

lemma lexed_plain_Cons:
  "c \<noteq> backslash \<Longrightarrow> c \<noteq> dquote \<Longrightarrow> lexed_string_body b \<Longrightarrow> lexed_string_body (c # b)"
  by (cases b) simp_all

lemma lexed_body_in_star:
  "lexed_string_body b \<Longrightarrow> map Ch b \<in> star (lang string_unit)"
proof (induction b rule: lexed_string_body.induct)
  case 1
  show ?case by (simp add: star.star_Nil)
next
  case (2 c)
  then have "[Ch c] \<in> lang string_unit" by (simp add: lang_string_unit)
  from star.star_app [OF this star.star_Nil] show ?case by simp
next
  case (3 c d ds)
  show ?case
  proof (cases "c = backslash")
    case True
    with "3.prems" have d: "d \<in> set escape_chars" and r: "lexed_string_body ds" by simp_all
    from d have "[Ch backslash, Ch d] \<in> lang string_unit" by (simp add: lang_string_unit)
    from star.star_app [OF this "3.IH"(1) [OF True r]] True show ?thesis by simp
  next
    case False
    with "3.prems" have c: "c \<noteq> dquote" and r: "lexed_string_body (d # ds)" by simp_all
    from False c have "[Ch c] \<in> lang string_unit" by (simp add: lang_string_unit)
    from star.star_app [OF this "3.IH"(2) [OF False r]] show ?thesis by simp
  qed
qed

lemma star_is_lexed_body:
  "w \<in> star (lang string_unit) \<Longrightarrow> \<exists>b. w = map Ch b \<and> lexed_string_body b"
proof (induction rule: star.induct)
  case star_Nil
  show ?case by (rule exI [of _ "[]"]) simp
next
  case (star_app u v)
  then obtain b where b: "v = map Ch b" "lexed_string_body b" by blast
  from star_app.hyps(1) consider c where "u = [Ch backslash, Ch c]" "c \<in> set escape_chars"
    | c where "u = [Ch c]" "c \<noteq> backslash" "c \<noteq> dquote"
    by (auto simp: lang_string_unit)
  then show ?case
  proof cases
    case 1
    with b show ?thesis by (intro exI [of _ "backslash # c # b"]) simp
  next
    case 2
    with b show ?thesis by (intro exI [of _ "c # b"]) (simp add: lexed_plain_Cons)
  qed
qed

lemma lang_string_literal:
  "w \<in> lang string_literal \<longleftrightarrow>
     (\<exists>b. lexed_string_body b \<and> w = map Ch (dquote # b @ [dquote]))"
proof
  assume "w \<in> lang string_literal"
  then obtain v where v: "v \<in> star (lang string_unit)" and w: "w = Ch dquote # v @ [Ch dquote]"
    by (auto simp: string_literal_unit conc_def)
  from star_is_lexed_body [OF v] w show "\<exists>b. lexed_string_body b \<and> w = map Ch (dquote # b @ [dquote])"
    by auto
next
  assume "\<exists>b. lexed_string_body b \<and> w = map Ch (dquote # b @ [dquote])"
  then obtain b where b: "lexed_string_body b" and w: "w = map Ch (dquote # b @ [dquote])"
    by blast
  from lexed_body_in_star [OF b] w show "w \<in> lang string_literal"
    by (auto simp: string_literal_unit conc_def)
qed

lemma lexed_body_end_unique:
  "lexed_string_body b \<Longrightarrow> lexed_string_body b' \<Longrightarrow>
     b @ dquote # x = b' @ dquote # y \<Longrightarrow> b = b'"
proof (induction b arbitrary: b' rule: lexed_string_body.induct)
  case 1
  then show ?case by (cases b' rule: lexed_string_body.cases) (auto split: if_splits)
next
  case (2 c)
  from "2.prems" show ?case
    by (cases b' rule: lexed_string_body.cases) (auto split: if_splits)
next
  case (3 c d ds)
  show ?case
  proof (cases "c = backslash")
    case True
    with "3.prems"(1) have r: "lexed_string_body ds" by simp
    from "3.prems"(2,3) True obtain ds' where b': "b' = c # d # ds'" and r': "lexed_string_body ds'"
      and e: "ds @ dquote # x = ds' @ dquote # y"
      by (cases b' rule: lexed_string_body.cases) (auto split: if_splits)
    from "3.IH"(1) [OF True r r' e] b' show ?thesis by simp
  next
    case False
    with "3.prems"(1) have cq: "c \<noteq> dquote" and r: "lexed_string_body (d # ds)" by simp_all
    from "3.prems"(2,3) False cq obtain b'' where b': "b' = c # b''"
      and r': "lexed_string_body b''" and e: "(d # ds) @ dquote # x = b'' @ dquote # y"
      by (cases b' rule: lexed_string_body.cases) (auto split: if_splits)
    from "3.IH"(2) [OF False r r' e] b' show ?thesis by simp
  qed
qed


lemma match_len_string_literal:
  assumes "lexed_string_body body"
  shows "match_len string_literal (map Ch (dquote # body @ dquote # rest)) =
           Some (Suc (Suc (length body)))"
proof (rule match_len_greatest)
  let ?w = "map Ch (dquote # body @ dquote # rest)"
  let ?n = "Suc (Suc (length body))"
  show "?n \<le> length ?w" by simp
  have "take ?n ?w = map Ch (dquote # body @ [dquote])" by simp
  with assms show "take ?n ?w \<in> lang string_literal"
    unfolding lang_string_literal by blast
  show "\<forall>j. ?n < j \<and> j \<le> length ?w \<longrightarrow> take j ?w \<notin> lang string_literal"
  proof (intro allI impI notI)
    fix j assume j: "?n < j \<and> j \<le> length ?w" and "take j ?w \<in> lang string_literal"
    then obtain b' where b': "lexed_string_body b'"
      and t: "take j ?w = map Ch (dquote # b' @ [dquote])"
      unfolding lang_string_literal by blast
    define k where "k = j - Suc (Suc (Suc (length body)))"
    from j have j1: "Suc (Suc (length body)) < j"
      and j2: "j \<le> Suc (Suc (length body + length rest))" by simp_all
    from j1 have k: "j = Suc (Suc (length body)) + Suc k" unfolding k_def by arith
    from j1 j2 have kl: "Suc k \<le> length rest" unfolding k_def by arith
    have "take j (dquote # body @ dquote # rest) = dquote # body @ dquote # take (Suc k) rest"
      using k by simp
    moreover from t have "map Ch (take j (dquote # body @ dquote # rest)) = map Ch (dquote # b' @ [dquote])"
      by (simp only: take_map)
    then have "take j (dquote # body @ dquote # rest) = dquote # b' @ [dquote]"
      by (metis (no_types) inj_on_def list.inj_map_strong sym.inject)
    ultimately have e: "body @ dquote # take (Suc k) rest = b' @ dquote # []" by simp
    from lexed_body_end_unique [OF assms b' e] have "body = b'" .
    with e have "take (Suc k) rest = []" by simp
    with kl show False by (cases rest) simp_all
  qed
qed

lemma best_rule_string_literal:
  assumes "match_len string_literal (Ch dquote # w) = Some n"
  shows "best_rule lexicon_default (Ch dquote # w) = Some (n, Return ''STRINGLIT'')"
proof -
  have 1: "match_len (Alt (Alt decimal_or_octal_number hex_number) binary_number) (Ch dquote # w) = None"
    by (simp add: match_len_def decimal_or_octal_number_def hex_number_def binary_number_def
        digit_def longest_dead)
  have 3: "match_len ident (Ch dquote # w) = None"
    by (simp add: match_len_def ident_def letter_def digit_def longest_dead)
  have 4: "match_len (Any ''({['') (Ch dquote # w) = None"
    by (simp add: match_len_def longest_dead)
  have 5: "match_len (Any '')}]'') (Ch dquote # w) = None"
    by (simp add: match_len_def longest_dead)
  have 6: "match_len (Alt (Str [newline]) Eof) (Ch dquote # w) = None"
    by (simp add: match_len_def longest_dead)
  have 7: "match_len punct (Ch dquote # w) = None"
    by (simp add: match_len_def punct_def longest_dead)
  have 8: "match_len (Rep1 (Str '' '')) (Ch dquote # w) = None"
    by (simp add: match_len_def longest_dead)
  have 9: "match_len (Seq (Seq (Str ''#'') (Rep (AnyBut [newline]))) (Opt (Str [newline])))
             (Ch dquote # w) = None"
    by (simp add: match_len_def longest_dead)
  show ?thesis
    by (simp add: lexicon_default_def 1 3 4 5 6 7 8 9 assms)
qed

lemma best_rule_indent_at_dquote:
  "best_rule lexicon_indent (Ch dquote # w) = Some (0, Call handle_indentation)"
  by (simp add: lexicon_indent_def match_len_def longest_dead)

lemma read_step_string_literal:
  assumes "lexed_string_body body" and "state_name self \<noteq> ''indent''"
    and "cursor self = InText" and "stream self = dquote # body @ dquote # rest"
  shows "\<exists>self'. read_step self = Inr self' \<and>
           queue self' = queue self @ [(PStr ''STRINGLIT'', PStr (dquote # body @ [dquote]))] \<and>
           stream self' = rest \<and> cursor self' = InText"
proof -
  have m: "match_len string_literal (Ch dquote # (map Ch body @ Ch dquote # map Ch rest)) =
             Some (Suc (Suc (length body)))"
    using match_len_string_literal [OF assms(1), of rest] by simp
  have t: "sym_text (Ch dquote # map Ch body @ [Ch dquote]) = dquote # body @ [dquote]"
    using sym_text_map_Ch [of "dquote # body @ [dquote]"] by simp
  have n: "EofSym \<notin> Ch ` set body" by auto
  from assms(2,3,4) show ?thesis
    by (simp add: read_step_def scan_a_token_def symbols_def lexicon_def Let_def
        best_rule_string_literal [OF m] t n produce_def split: prod.splits)
qed


lemma lexed_body_is_spec_body: "lexed_string_body b \<Longrightarrow> spec_string_body b"
  by (induction b rule: lexed_string_body.induct) (auto split: if_splits)

lemma read_step_indent_at_dquote:
  assumes "state_name self = ''indent''" and "cursor self = InText"
    and "stream self = dquote # w" and "indents self = [0]" and "queue self = []"
  shows "\<exists>self'. read_step self = Inr self' \<and> queue self' = [] \<and> state_name self' = [] \<and>
           cursor self' = InText \<and> stream self' = dquote # w"
  using assms
  by (simp add: read_step_def scan_a_token_def symbols_def lexicon_def Let_def
      best_rule_indent_at_dquote sym_text_def handle_indentation_def begin_state_def)

text \<open>
  Claim C4, amended. For every string made of a double quote, a run of units, each
  either a backslash followed by one character out of \<^verbatim>\<open>a\<close> to \<^verbatim>\<open>z\<close>, backslash and
  double quote, or one character that is neither backslash nor double quote, and a
  closing double quote, the raw lexer (in file mode and in expression-only mode,
  whatever follows the string in the stream) reads the whole string as one
  \<^verbatim>\<open>STRINGLIT\<close> token.
\<close>

theorem string_literal_is_one_token:
  assumes "lexed_string_body body"
  shows "\<exists>self'. raw_read (RawScanner_init (dquote # body @ dquote # rest) nm expression_only) =
           Inr ((PStr ''STRINGLIT'', PStr (dquote # body @ [dquote])), self') \<and>
         stream self' = rest \<and> queue self' = []"
proof -
  let ?i = "RawScanner_init (dquote # body @ dquote # rest) nm expression_only"
  let ?tok = "(PStr ''STRINGLIT'', PStr (dquote # body @ [dquote]))"
  have q: "queue ?i = []" by (simp add: RawScanner_init_def begin_state_def)
  have "\<exists>self1. read_loop ?i = Inr self1 \<and> queue self1 = [?tok] \<and> stream self1 = rest"
  proof (cases expression_only)
    case True
    then have "state_name ?i \<noteq> ''indent''" "cursor ?i = InText"
      "stream ?i = dquote # body @ dquote # rest"
      by (simp_all add: RawScanner_init_def)
    from read_step_string_literal [OF assms this] q obtain self1 where
      "read_step ?i = Inr self1" "queue self1 = [?tok]" "stream self1 = rest" by auto
    then show ?thesis by (subst read_loop.simps) simp
  next
    case False
    then have "state_name ?i = ''indent''" "cursor ?i = InText"
      "stream ?i = dquote # (body @ dquote # rest)" "indents ?i = [0]" "queue ?i = []"
      by (simp_all add: RawScanner_init_def begin_state_def)
    from read_step_indent_at_dquote [OF this] obtain self0 where
      s0: "read_step ?i = Inr self0" "queue self0 = []" "state_name self0 = []"
        "cursor self0 = InText" "stream self0 = dquote # body @ dquote # rest" by auto
    from s0(3) have "state_name self0 \<noteq> ''indent''" by simp
    from read_step_string_literal [OF assms this s0(4,5)] s0(2) obtain self1 where
      s1: "read_step self0 = Inr self1" "queue self1 = [?tok]" "stream self1 = rest" by auto
    from s1 have "read_loop self0 = Inr self1 \<and> queue self1 = [?tok] \<and> stream self1 = rest"
      by (subst read_loop.simps) simp
    with s0(1,2) show ?thesis by (subst read_loop.simps) simp
  qed
  then obtain self1 where "read_loop ?i = Inr self1" "queue self1 = [?tok]" "stream self1 = rest"
    by blast
  with q show ?thesis by (simp add: raw_read_def)
qed

text \<open>The amended claim C4 on the literal \<^verbatim>\<open>"\nx\""\<close>.\<close>

theorem string_literal_is_one_token_witness:
  "\<exists>self'. raw_read (RawScanner_init
              [dquote, backslash, CHR ''n'', CHR ''x'', backslash, dquote, dquote] None False) =
           Inr ((PStr ''STRINGLIT'',
                 PStr [dquote, backslash, CHR ''n'', CHR ''x'', backslash, dquote, dquote]), self') \<and>
         stream self' = [] \<and> queue self' = []"
proof -
  have h: "lexed_string_body [backslash, CHR ''n'', CHR ''x'', backslash, dquote]"
    by (simp add: escape_chars_def)
  from string_literal_is_one_token [OF h, of "[]" None False] show ?thesis by simp
qed

text \<open>
  Claim C4 as stated fails: \<^verbatim>\<open>"\A"\<close> and \<^verbatim>\<open>"\1"\<close> are string literals as the
  specification describes them, and the raw lexer raises \<^verbatim>\<open>UnrecognizedInput\<close> on
  them.
\<close>

theorem uppercase_escape_counterexample:
  "spec_string_literal [dquote, backslash, CHR ''A'', dquote] \<and>
   (case raw_read (RawScanner_init [dquote, backslash, CHR ''A'', dquote] None False) of
      Inl (ex, self') \<Rightarrow> ex = UnrecognizedInput
    | Inr res \<Rightarrow> False) \<and>
   spec_string_literal [dquote, backslash, CHR ''1'', dquote] \<and>
   (case raw_read (RawScanner_init [dquote, backslash, CHR ''1'', dquote] None True) of
      Inl (ex, self') \<Rightarrow> ex = UnrecognizedInput
    | Inr res \<Rightarrow> False)"
  by code_simp

section \<open>Properties of the token data model\<close>

text \<open>
  Claim C9. For the four structural types \<^verbatim>\<open>display_name\<close> returns the fixed strings
  "newline", "indent", "outdent" and "end of file"; for a token of any other type
  (an \<^verbatim>\<open>IDENT\<close> or \<^verbatim>\<open>NUMBER\<close> token, say) it raises \<^verbatim>\<open>NameError\<close> instead of
  returning the token's value.
\<close>

theorem display_name_cases:
  "(type t = PStr ''NEWLINE'' \<longrightarrow> display_name t = Inr ''newline'') \<and>
   (type t = PStr ''INDENT'' \<longrightarrow> display_name t = Inr ''indent'') \<and>
   (type t = PStr ''OUTDENT'' \<longrightarrow> display_name t = Inr ''outdent'') \<and>
   (type t = PStr ''EOF'' \<longrightarrow> display_name t = Inr ''end of file'') \<and>
   (type t \<notin> {PStr ''NEWLINE'', PStr ''INDENT'', PStr ''OUTDENT'', PStr ''EOF''}
      \<longrightarrow> display_name t = Inl NameError)"
  by (simp add: display_name_def)

theorem display_name_cases_witness:
  "display_name (Token (PStr ''NEWLINE'') (PStr [newline]) None) = Inr ''newline'' \<and>
   display_name (Token (PStr ''INDENT'') (PInt 2) None) = Inr ''indent'' \<and>
   display_name (Token (PStr ''OUTDENT'') (PStr []) None) = Inr ''outdent'' \<and>
   display_name (Token (PStr ''EOF'') (PStr []) None) = Inr ''end of file'' \<and>
   display_name (Token (PStr ''IDENT'') (PStr ''a'') None) = Inl NameError \<and>
   display_name (Token (PStr ''NUMBER'') (PStr ''1'') None) = Inl NameError"
  using display_name_cases [of "Token (PStr ''NEWLINE'') (PStr [newline]) None"]
    display_name_cases [of "Token (PStr ''INDENT'') (PInt 2) None"]
    display_name_cases [of "Token (PStr ''OUTDENT'') (PStr []) None"]
    display_name_cases [of "Token (PStr ''EOF'') (PStr []) None"]
    display_name_cases [of "Token (PStr ''IDENT'') (PStr ''a'') None"]
    display_name_cases [of "Token (PStr ''NUMBER'') (PStr ''1'') None"]
  by (simp add: Token_def)

text \<open>
  Claim C10. Token equality compares the pair (type, value) and nothing else: two
  tokens are equal exactly when their types and values are, whatever their source
  ranges (present, different or \<^verbatim>\<open>None\<close>), and a token is equal to the plain 2-tuple of
  its type and value, and to a tuple exactly when the tuple is that pair.
\<close>

theorem Token_eq_type_value_only:
  "Token_eq t1 (OToken t2) = (type t1 = type t2 \<and> value t1 = value t2) \<and>
   Token_eq (Token ty v r1) (OToken (Token ty v r2)) \<and>
   Token_eq (Token ty v r1) (OToken (Token ty v None)) \<and>
   Token_eq t1 (OTuple [type t1, value t1]) \<and>
   Token_eq t1 (OTuple vs) = (vs = [type t1, value t1])"
  by (auto simp add: Token_eq_def Token_def)

end
